theory Spec2Isabelle
  imports Main
begin

section \<open>JavaScript strings\<close>

text \<open>
  Cells and headers are JavaScript strings, modelled as \<^typ>\<open>string\<close>. The character
  operations are those of JavaScript on ASCII characters: the white space of \<^verbatim>\<open>trim\<close>
  and of the regular expression class \<^verbatim>\<open>\s\<close> is tab, line feed, vertical tab, form
  feed, carriage return and space; \<^verbatim>\<open>toUpperCase\<close> and \<^verbatim>\<open>toLowerCase\<close> map the
  letters a-z and A-Z and leave every other ASCII character alone.
\<close>

definition isWhiteSpace :: "char \<Rightarrow> bool" where
  "isWhiteSpace ch \<longleftrightarrow> (let n = (of_char ch :: nat) in (9 \<le> n \<and> n \<le> 13) \<or> n = 32)"

definition toUpperChar :: "char \<Rightarrow> char" where
  "toUpperChar ch =
     (let n = (of_char ch :: nat) in if 97 \<le> n \<and> n \<le> 122 then char_of (n - 32) else ch)"

definition toLowerChar :: "char \<Rightarrow> char" where
  "toLowerChar ch =
     (let n = (of_char ch :: nat) in if 65 \<le> n \<and> n \<le> 90 then char_of (n + 32) else ch)"

definition toUpperCase :: "string \<Rightarrow> string" where
  "toUpperCase s = map toUpperChar s"

definition toLowerCase :: "string \<Rightarrow> string" where
  "toLowerCase s = map toLowerChar s"

text \<open>
  Outside ASCII JavaScript trims further space characters (U+00A0, U+FEFF, the Unicode
  space separators and line separators) and maps further letters, some of them to more
  than one character; the definitions above do not follow it there and treat every
  character from U+0080 on as neither white space nor a letter. Statements whose truth
  depends on the case mapping or on the set of white-space characters are therefore made
  about strings of ASCII characters.
\<close>

definition isAscii :: "string \<Rightarrow> bool" where
  "isAscii s \<longleftrightarrow> list_all (\<lambda>ch. (of_char ch :: nat) < 128) s"

text \<open>\<^verbatim>\<open>s.trim()\<close>: white space is removed at both ends.\<close>

definition trim :: "string \<Rightarrow> string" where
  "trim s = rev (dropWhile isWhiteSpace (rev (dropWhile isWhiteSpace s)))"

text \<open>\<^verbatim>\<open>s.replace(/\s+/g, " ")\<close>: every maximal run of white space becomes one space.\<close>

function collapseWhiteSpace :: "string \<Rightarrow> string" where
  "collapseWhiteSpace [] = []"
| "collapseWhiteSpace (ch # s) =
     (if isWhiteSpace ch then CHR '' '' # collapseWhiteSpace (dropWhile isWhiteSpace s)
      else ch # collapseWhiteSpace s)"
  by pat_completeness auto
termination
  by (relation "measure length") (auto simp: length_dropWhile_le less_Suc_eq_le)

text \<open>
  \<^verbatim>\<open>s.split(" ")\<close>: the pieces between single space characters; the empty string gives
  one empty piece, two adjacent spaces give an empty piece between them.
\<close>

fun split_space :: "string \<Rightarrow> string list" where
  "split_space [] = [[]]"
| "split_space (ch # s) =
     (if ch = CHR '' '' then [] # split_space s
      else (case split_space s of [] \<Rightarrow> [[ch]] | w # ws \<Rightarrow> (ch # w) # ws))"

text \<open>\<^verbatim>\<open>xs.join(sep)\<close>.\<close>

fun join :: "string \<Rightarrow> string list \<Rightarrow> string" where
  "join sep [] = []"
| "join sep [x] = x"
| "join sep (x # y # ys) = x @ sep @ join sep (y # ys)"

section \<open>Values and the abbreviation dictionary\<close>

text \<open>
  \<^verbatim>\<open>VALUE_ABBREVIATIONS\<close> is an object literal, so \<^verbatim>\<open>VALUE_ABBREVIATIONS[c]\<close> is a
  property read: it finds the literal's own nine keys and, for every other name, what the
  object inherits from \<^verbatim>\<open>Object.prototype\<close>. The inherited members are functions, and
  \<^verbatim>\<open>__proto__\<close> is the prototype object itself; none of them is a string, all of them
  are truthy, and their \<^verbatim>\<open>length\<close> is at most 2 or undefined. A cell is therefore
  either a string or such a value.
\<close>

datatype jsvalue = JString string | JObject

definition VALUE_ABBREVIATIONS :: "(string \<times> string) list" where
  "VALUE_ABBREVIATIONS =
     [(''ea'', ''Each''), (''ea.'', ''Each''), (''EA'', ''Each''),
      (''pcs'', ''Pieces''), (''pcs.'', ''Pieces''), (''PCS'', ''Pieces''), (''pc'', ''Pieces''),
      (''nos'', ''Numbers''), (''nos.'', ''Numbers'')]"

definition Object_prototype_names :: "string list" where
  "Object_prototype_names =
     [''constructor'', ''hasOwnProperty'', ''isPrototypeOf'', ''propertyIsEnumerable'',
      ''toLocaleString'', ''toString'', ''valueOf'', ''__proto__'',
      ''__defineGetter__'', ''__defineSetter__'', ''__lookupGetter__'', ''__lookupSetter__'']"

text \<open>The property read; \<^term>\<open>None\<close> is \<^verbatim>\<open>undefined\<close>.\<close>

definition abbreviation_lookup :: "string \<Rightarrow> jsvalue option" where
  "abbreviation_lookup c =
     (case map_of VALUE_ABBREVIATIONS c of
        Some v \<Rightarrow> Some (JString v)
      | None \<Rightarrow> if c \<in> set Object_prototype_names then Some JObject else None)"

section \<open>Rationalization\<close>

record counters =
  abbrFixed :: nat
  casingFixed :: nat
  wsFixed :: nat

datatype error = TypeError

text \<open>The title case of the casing pass: each piece of \<^verbatim>\<open>c.split(" ")\<close> has its first
  character upper-cased and the rest lower-cased.\<close>

definition capitalizeLower :: "string \<Rightarrow> string" where
  "capitalizeLower w = (case w of [] \<Rightarrow> [] | ch # r \<Rightarrow> toUpperChar ch # toLowerCase r)"

definition titleCase :: "string \<Rightarrow> string" where
  "titleCase c = join '' '' (map capitalizeLower (split_space c))"

text \<open>The three steps of the callback that \<^verbatim>\<open>rationalize\<close> maps over every cell, each
  threading the counters it increments.\<close>

definition fixWhiteSpace :: "string \<Rightarrow> counters \<Rightarrow> string \<times> counters" where
  "fixWhiteSpace cell k =
     (let c = trim cell;
          k1 = (if c \<noteq> cell then k\<lparr>wsFixed := wsFixed k + 1\<rparr> else k)
      in (collapseWhiteSpace c, k1))"

definition fixAbbreviation :: "string \<Rightarrow> counters \<Rightarrow> jsvalue \<times> counters" where
  "fixAbbreviation c k =
     (case abbreviation_lookup c of
        Some v \<Rightarrow> (v, k\<lparr>abbrFixed := abbrFixed k + 1\<rparr>)
      | None \<Rightarrow> (JString c, k))"

definition fixCasing :: "jsvalue \<Rightarrow> counters \<Rightarrow> jsvalue \<times> counters" where
  "fixCasing v k =
     (case v of
        JObject \<Rightarrow> (JObject, k)
      | JString c \<Rightarrow>
          if length c > 3 \<and> (c = toUpperCase c \<or> c = toLowerCase c) then
            (let titled = titleCase c
             in if titled \<noteq> c then (JString titled, k\<lparr>casingFixed := casingFixed k + 1\<rparr>)
                else (JString c, k))
          else (JString c, k))"

definition normalizeCell :: "string \<Rightarrow> counters \<Rightarrow> jsvalue \<times> counters" where
  "normalizeCell cell k =
     (let (c, k1) = fixWhiteSpace cell k;
          (v, k2) = fixAbbreviation c k1
      in fixCasing v k2)"

fun normalizeRow :: "string list \<Rightarrow> counters \<Rightarrow> jsvalue list \<times> counters" where
  "normalizeRow [] k = ([], k)"
| "normalizeRow (cell # cells) k =
     (let (v, k1) = normalizeCell cell k;
          (vs, k2) = normalizeRow cells k1
      in (v # vs, k2))"

fun normalizeRows :: "string list list \<Rightarrow> counters \<Rightarrow> jsvalue list list \<times> counters" where
  "normalizeRows [] k = ([], k)"
| "normalizeRows (row # rows) k =
     (let (r, k1) = normalizeRow row k;
          (rs, k2) = normalizeRows rows k1
      in (r # rs, k2))"

text \<open>\<^verbatim>\<open>c.toLowerCase()\<close> is a method call: on a value that is not a string it throws.\<close>

fun lowerCell :: "jsvalue \<Rightarrow> error + string" where
  "lowerCell (JString s) = Inr (toLowerCase s)"
| "lowerCell JObject = Inl TypeError"

fun lowerCells :: "jsvalue list \<Rightarrow> error + string list" where
  "lowerCells [] = Inr []"
| "lowerCells (v # vs) =
     (case lowerCell v of
        Inl e \<Rightarrow> Inl e
      | Inr s \<Rightarrow> (case lowerCells vs of Inl e \<Rightarrow> Inl e | Inr ss \<Rightarrow> Inr (s # ss)))"

definition rowKey :: "jsvalue list \<Rightarrow> error + string" where
  "rowKey row = (case lowerCells row of Inl e \<Rightarrow> Inl e | Inr ss \<Rightarrow> Inr (join ''|'' ss))"

text \<open>The deduplication loop, with its three variables \<^verbatim>\<open>seen\<close>, \<^verbatim>\<open>deduped\<close> and
  \<^verbatim>\<open>dupsRemoved\<close>.\<close>

fun dedupe ::
  "jsvalue list list \<Rightarrow> string list \<Rightarrow> jsvalue list list \<Rightarrow> nat
     \<Rightarrow> error + (jsvalue list list \<times> nat)" where
  "dedupe [] seen deduped dupsRemoved = Inr (deduped, dupsRemoved)"
| "dedupe (row # rows) seen deduped dupsRemoved =
     (case rowKey row of
        Inl e \<Rightarrow> Inl e
      | Inr key \<Rightarrow>
          if key \<notin> set seen then dedupe rows (key # seen) (deduped @ [row]) dupsRemoved
          else dedupe rows seen deduped (dupsRemoved + 1))"

definition nonEmptyRow :: "jsvalue list \<Rightarrow> bool" where
  "nonEmptyRow r \<longleftrightarrow> list_ex (\<lambda>c. c \<noteq> JString []) r"

record rationalized =
  rationRows :: "jsvalue list list"
  duplicatesRemoved :: nat
  abbreviationsFixed :: nat
  casingFixedStat :: nat
  whitespaceFixed :: nat
  outputRows :: nat

definition rationalize :: "string list list \<Rightarrow> error + rationalized" where
  "rationalize mergedRows =
     (let (normalized, k) = normalizeRows mergedRows \<lparr>abbrFixed = 0, casingFixed = 0, wsFixed = 0\<rparr>
      in case dedupe normalized [] [] 0 of
           Inl e \<Rightarrow> Inl e
         | Inr (deduped, dups) \<Rightarrow>
             (let cleaned = filter nonEmptyRow deduped;
                  dupsRemoved = dups + (length deduped - length cleaned)
              in Inr \<lparr>rationRows = cleaned, duplicatesRemoved = dupsRemoved,
                      abbreviationsFixed = abbrFixed k, casingFixedStat = casingFixed k,
                      whitespaceFixed = wsFixed k, outputRows = length cleaned\<rparr>))"

section \<open>Column reconciliation and merge\<close>

record FileData =
  fileName :: string
  headers :: "string list"
  rows :: "string list list"

record ColumnMapping =
  sources :: "string list"
  target :: string

definition COLUMN_SYNONYMS :: "(string \<times> string list) list" where
  "COLUMN_SYNONYMS =
     [(''Part Number'', [''part number'', ''p/n'', ''pn'', ''item code'', ''item id'', ''sku'',
                         ''part no'', ''part no.'']),
      (''Description'', [''description'', ''desc'', ''desc.'', ''part desc'', ''part description'',
                         ''item description'', ''name'', ''item name'']),
      (''Quantity'', [''quantity'', ''qty'', ''qty.'', ''units'', ''count'', ''amount'']),
      (''Unit of Measure'', [''unit of measure'', ''uom'', ''unit'']),
      (''Unit Price'', [''unit price'', ''price'', ''cost per unit'', ''cost'', ''rate'',
                        ''estimated cost'', ''price per unit'']),
      (''Supplier'', [''supplier'', ''vendor'', ''mfg'', ''mfg.'', ''mfr'', ''mfr.'',
                      ''manufacturer'', ''source''])]"

text \<open>The reverse index, a \<^verbatim>\<open>Map\<close> filled by two nested loops; a later \<^verbatim>\<open>set\<close> of the
  same alias would overwrite an earlier one.\<close>

definition synonymLookup :: "string \<rightharpoonup> string" where
  "synonymLookup =
     fold (\<lambda>(standard, synonyms) m. fold (\<lambda>s m. m(s \<mapsto> standard)) synonyms m)
       COLUMN_SYNONYMS Map.empty"

text \<open>\<^verbatim>\<open>allSourceCols\<close> is a \<^verbatim>\<open>Set\<close>: the distinct headers in the order of their first
  insertion.\<close>

definition set_add :: "'a \<Rightarrow> 'a list \<Rightarrow> 'a list" where
  "set_add x xs = (if x \<in> set xs then xs else xs @ [x])"

definition allSourceCols :: "FileData list \<Rightarrow> string list" where
  "allSourceCols fs = fold (\<lambda>f acc. fold set_add (headers f) acc) fs []"

text \<open>The passthrough name: \<^verbatim>\<open>key.split(" ")\<close>, each piece with its first character
  upper-cased and the rest kept, joined with a space.\<close>

definition capitalize :: "string \<Rightarrow> string" where
  "capitalize w = (case w of [] \<Rightarrow> [] | ch # r \<Rightarrow> toUpperChar ch # r)"

definition titled :: "string \<Rightarrow> string" where
  "titled key = join '' '' (map capitalize (split_space key))"

text \<open>The three variables of the mapping loop. \<^verbatim>\<open>mappingTracker\<close> is a \<^verbatim>\<open>Map\<close> from a
  standard name to a \<^verbatim>\<open>Set\<close> of source names, both in insertion order.\<close>

record mapping_state =
  colMapping :: "string \<rightharpoonup> string"
  standardCols :: "string list"
  mappingTracker :: "(string \<times> string list) list"

definition track :: "string \<Rightarrow> string \<Rightarrow> string \<Rightarrow> mapping_state \<Rightarrow> mapping_state" where
  "track key name src st =
     (let has = (name \<in> fst ` set (mappingTracker st));
          tracker1 = (if has then mappingTracker st else mappingTracker st @ [(name, [])]);
          cols1 = (if has then standardCols st else standardCols st @ [name])
      in \<lparr>colMapping = (colMapping st)(key \<mapsto> name),
          standardCols = cols1,
          mappingTracker = map (\<lambda>(t, ss). if t = name then (t, set_add src ss) else (t, ss)) tracker1\<rparr>)"

text \<open>One round of the loop over \<^verbatim>\<open>allSourceCols\<close>. Every value of the synonym index is a
  non-empty string, so \<^verbatim>\<open>if (standard)\<close> tests whether the alias was found.\<close>

definition mapColumn :: "string \<Rightarrow> mapping_state \<Rightarrow> mapping_state" where
  "mapColumn src st =
     (let key = trim (toLowerCase src)
      in case synonymLookup key of
           Some standard \<Rightarrow> track key standard src st
         | None \<Rightarrow> track key (titled key) src st)"

definition mapColumns :: "string list \<Rightarrow> mapping_state" where
  "mapColumns srcs =
     fold mapColumn srcs \<lparr>colMapping = Map.empty, standardCols = [], mappingTracker = []\<rparr>"

text \<open>\<^verbatim>\<open>xs.indexOf(x)\<close>, with \<^term>\<open>None\<close> for -1.\<close>

fun indexOf :: "'a list \<Rightarrow> 'a \<Rightarrow> nat option" where
  "indexOf [] x = None"
| "indexOf (y # ys) x = (if y = x then Some 0 else map_option Suc (indexOf ys x))"

text \<open>\<^verbatim>\<open>headerMap\<close> of one file: header position to standard position. An empty
  standard name is falsy and is skipped by \<^verbatim>\<open>if (standard)\<close>.\<close>

definition headerMapStep :: "mapping_state \<Rightarrow> (nat \<rightharpoonup> nat) \<Rightarrow> nat \<times> string \<Rightarrow> (nat \<rightharpoonup> nat)" where
  "headerMapStep st hm ih =
     (case colMapping st (trim (toLowerCase (snd ih))) of
        None \<Rightarrow> hm
      | Some standard \<Rightarrow>
          if standard = [] then hm
          else (case indexOf (standardCols st) standard of
                  None \<Rightarrow> hm
                | Some idx \<Rightarrow> hm(fst ih \<mapsto> idx)))"

definition headerMap :: "mapping_state \<Rightarrow> string list \<Rightarrow> (nat \<rightharpoonup> nat)" where
  "headerMap st hs = foldl (headerMapStep st) Map.empty (zip [0 ..< length hs] hs)"

text \<open>\<^verbatim>\<open>merged[idx] = cell\<close>. An index past the end would lengthen the array; the slots
  skipped that way are written here as empty strings.\<close>

definition array_assign :: "string list \<Rightarrow> nat \<Rightarrow> string \<Rightarrow> string list" where
  "array_assign xs i v =
     (if i < length xs then xs[i := v] else xs @ replicate (i - length xs) [] @ [v])"

definition mergeCell :: "(nat \<rightharpoonup> nat) \<Rightarrow> string list \<Rightarrow> nat \<times> string \<Rightarrow> string list" where
  "mergeCell hm merged ic =
     (case hm (fst ic) of None \<Rightarrow> merged | Some idx \<Rightarrow> array_assign merged idx (snd ic))"

definition mergeRow :: "nat \<Rightarrow> (nat \<rightharpoonup> nat) \<Rightarrow> string list \<Rightarrow> string list" where
  "mergeRow n hm row = foldl (mergeCell hm) (replicate n []) (zip [0 ..< length row] row)"

definition mergeFile :: "mapping_state \<Rightarrow> FileData \<Rightarrow> string list list" where
  "mergeFile st f = map (mergeRow (length (standardCols st)) (headerMap st (headers f))) (rows f)"

record merged =
  mergedHeaders :: "string list"
  mergedRows :: "string list list"
  totalFiles :: nat
  totalSourceRows :: nat
  sourceColumns :: nat
  outputColumns :: nat
  columnMappings :: "ColumnMapping list"

definition mergeAndPreview :: "FileData list \<Rightarrow> merged" where
  "mergeAndPreview fs =
     (let srcs = allSourceCols fs;
          st = mapColumns srcs;
          mrows = concat (map (mergeFile st) fs)
      in \<lparr>mergedHeaders = standardCols st,
          mergedRows = mrows,
          totalFiles = length fs,
          totalSourceRows = length mrows,
          sourceColumns = length srcs,
          outputColumns = length (standardCols st),
          columnMappings = map (\<lambda>(t, ss). \<lparr>sources = ss, target = t\<rparr>) (mappingTracker st)\<rparr>)"

section \<open>Ingestion\<close>

text \<open>\<^verbatim>\<open>parseCSVLine\<close>: a double quote toggles \<^verbatim>\<open>inQuotes\<close> and is dropped, a comma
  outside quotes ends the field, and every field is trimmed when it is pushed.\<close>

fun parseCSVLoop :: "string \<Rightarrow> string \<Rightarrow> bool \<Rightarrow> string list \<Rightarrow> string list" where
  "parseCSVLoop [] current inQuotes result = result @ [trim current]"
| "parseCSVLoop (ch # line) current inQuotes result =
     (if ch = CHR 0x22 then parseCSVLoop line current (\<not> inQuotes) result
      else if ch = CHR '','' \<and> \<not> inQuotes then parseCSVLoop line [] inQuotes (result @ [trim current])
      else parseCSVLoop line (current @ [ch]) inQuotes result)"

definition parseCSVLine :: "string \<Rightarrow> string list" where
  "parseCSVLine line = parseCSVLoop line [] False []"

text \<open>\<^verbatim>\<open>text.split("\n")\<close>.\<close>

fun split_newline :: "string \<Rightarrow> string list" where
  "split_newline [] = [[]]"
| "split_newline (ch # s) =
     (if ch = CHR 0x0A then [] # split_newline s
      else (case split_newline s of [] \<Rightarrow> [[ch]] | l # ls \<Rightarrow> (ch # l) # ls))"

text \<open>
  An uploaded file: its name, what \<^verbatim>\<open>file.text()\<close> gives, and what the spreadsheet
  library makes of its bytes: either it throws, or \<^verbatim>\<open>sheet_to_json\<close> gives the rows of
  the first sheet. A cell of such a row is absent (null, undefined or a hole) or a value,
  kept here as the string that \<^verbatim>\<open>String\<close> makes of it.
\<close>

datatype workbook = Unreadable | FirstSheet "string option list list"

record upload =
  uploadName :: string
  uploadText :: string
  uploadBook :: workbook

text \<open>\<^verbatim>\<open>name.endsWith(suffix)\<close>, and the test \<^verbatim>\<open>/\.xlsx?$/i\<close> on a name.\<close>

definition endsWith :: "string \<Rightarrow> string \<Rightarrow> bool" where
  "endsWith s suffix \<longleftrightarrow>
     length suffix \<le> length s \<and> drop (length s - length suffix) s = suffix"

definition isSheetName :: "string \<Rightarrow> bool" where
  "isSheetName n \<longleftrightarrow> endsWith (toLowerCase n) ''.xls'' \<or> endsWith (toLowerCase n) ''.xlsx''"

text \<open>\<^verbatim>\<open>String(c ?? "")\<close>, and \<^verbatim>\<open>r[i]\<close>, which is undefined past the end.\<close>

definition cellText :: "string option \<Rightarrow> string" where
  "cellText c = (case c of None \<Rightarrow> [] | Some s \<Rightarrow> s)"

definition cellAt :: "string option list \<Rightarrow> nat \<Rightarrow> string option" where
  "cellAt r i = (if i < length r then r ! i else None)"

text \<open>The two branches of \<^verbatim>\<open>ingestFiles\<close> for one file. Each gives the list of what
  is pushed to \<^verbatim>\<open>parsed\<close>: one table or nothing.\<close>

definition ingestCSV :: "string \<Rightarrow> string \<Rightarrow> FileData list" where
  "ingestCSV n txt =
     (case filter (\<lambda>l. trim l \<noteq> []) (split_newline txt) of
        [] \<Rightarrow> []
      | l # ls \<Rightarrow> [\<lparr>fileName = n, headers = parseCSVLine l, rows = map parseCSVLine ls\<rparr>])"

definition ingestSheet :: "string \<Rightarrow> string option list list \<Rightarrow> FileData list" where
  "ingestSheet n raw =
     (case raw of
        [] \<Rightarrow> []
      | h # rs \<Rightarrow>
          (let hs = map (\<lambda>c. trim (cellText c)) h
           in [\<lparr>fileName = n, headers = hs,
                rows = map (\<lambda>r. map (\<lambda>i. trim (cellText (cellAt r i))) [0 ..< length hs])
                         (filter (\<lambda>r. list_ex (\<lambda>c. trim (cellText c) \<noteq> []) r) rs)\<rparr>]))"

text \<open>A file that is neither kind, or that the library cannot read, adds nothing: the
  exception is caught and logged.\<close>

definition ingestFile :: "upload \<Rightarrow> FileData list" where
  "ingestFile u =
     (if endsWith (uploadName u) ''.csv'' then ingestCSV (uploadName u) (uploadText u)
      else if isSheetName (uploadName u) then
        (case uploadBook u of
           Unreadable \<Rightarrow> []
         | FirstSheet raw \<Rightarrow> ingestSheet (uploadName u) raw)
      else [])"

text \<open>\<^verbatim>\<open>ingestFiles\<close> appends what it parsed to the files already loaded.\<close>

definition ingestFiles :: "upload list \<Rightarrow> FileData list \<Rightarrow> FileData list" where
  "ingestFiles list prev = prev @ concat (map ingestFile list)"

section \<open>CSV export\<close>

text \<open>\<^verbatim>\<open>c.replace(/"/g, '""')\<close>.\<close>

definition doubleQuotes :: "string \<Rightarrow> string" where
  "doubleQuotes c = concat (map (\<lambda>ch. if ch = CHR 0x22 then [CHR 0x22, CHR 0x22] else [ch]) c)"

text \<open>The text that \<^verbatim>\<open>exportCSV\<close> puts into the downloaded file.\<close>

definition exportCSV :: "string list \<Rightarrow> string list list \<Rightarrow> string" where
  "exportCSV hs rs =
     join [CHR 0x0A]
       (join '','' (map (\<lambda>h. [CHR 0x22] @ h @ [CHR 0x22]) hs)
        # map (\<lambda>r. join '','' (map (\<lambda>c. [CHR 0x22] @ doubleQuotes c @ [CHR 0x22]) r)) rs)"

section \<open>Session state\<close>

datatype Step = Upload | Preview | Rationalize | Export

text \<open>The position of a step in \<^verbatim>\<open>STEPS\<close>.\<close>

fun stepIdx :: "Step \<Rightarrow> nat" where
  "stepIdx Upload = 0"
| "stepIdx Preview = 1"
| "stepIdx Rationalize = 2"
| "stepIdx Export = 3"

datatype Phase = Idle | Analyzing | Mapping | Deduplicating | Normalizing | Done

record session =
  step :: Step
  files :: "FileData list"
  consolidated :: merged
  phase :: Phase
  rationHeaders :: "string list"
  outcome :: rationalized

definition noMerge :: merged where
  "noMerge = \<lparr>mergedHeaders = [], mergedRows = [], totalFiles = 0, totalSourceRows = 0,
              sourceColumns = 0, outputColumns = 0, columnMappings = []\<rparr>"

definition noOutcome :: rationalized where
  "noOutcome = \<lparr>rationRows = [], duplicatesRemoved = 0, abbreviationsFixed = 0,
                casingFixedStat = 0, whitespaceFixed = 0, outputRows = 0\<rparr>"

definition initial :: session where
  "initial = \<lparr>step = Upload, files = [], consolidated = noMerge, phase = Idle,
              rationHeaders = [], outcome = noOutcome\<rparr>"

text \<open>
  What the user can do. Every control is a button of the page: the four stepper buttons,
  the file input and the remove and consolidate buttons of the upload panel, the two
  buttons of the preview panel, the two buttons under the results of the rationalize
  panel, and the downloads and the start-over link of the export panel. Choosing or
  dropping files hands over \<^verbatim>\<open>parsed\<close>, the tables that the ingestion made of them
  (\<^term>\<open>concat (map ingestFile list)\<close> for the chosen \<open>list\<close>).
\<close>

datatype action =
    StepperButton Step
  | IngestFiles "FileData list"
  | RemoveFile nat
  | ConsolidateButton
  | PreviewBack
  | RationalizeButton
  | ResultsBack
  | ResultsNext
  | DownloadCSV
  | DownloadExcel
  | StartOver

text \<open>A stepper button is enabled for the steps before the current one (\<^verbatim>\<open>done\<close>). A
  panel's buttons exist only while its step is shown; the buttons under the results only
  once the phase is \<^verbatim>\<open>done\<close>; the consolidate button is disabled without files.\<close>

fun click :: "action \<Rightarrow> session \<Rightarrow> session" where
  "click (StepperButton t) s = (if stepIdx t < stepIdx (step s) then s\<lparr>step := t\<rparr> else s)"
| "click (IngestFiles parsed) s = (if step s = Upload then s\<lparr>files := files s @ parsed\<rparr> else s)"
| "click (RemoveFile i) s =
     (if step s = Upload \<and> i < length (files s)
      then s\<lparr>files := take i (files s) @ drop (Suc i) (files s)\<rparr> else s)"
| "click ConsolidateButton s =
     (if step s = Upload \<and> files s \<noteq> []
      then s\<lparr>consolidated := mergeAndPreview (files s), step := Preview\<rparr> else s)"
| "click PreviewBack s = (if step s = Preview then s\<lparr>step := Upload\<rparr> else s)"
| "click RationalizeButton s =
     (if step s = Preview then s\<lparr>step := Rationalize, phase := Analyzing\<rparr> else s)"
| "click ResultsBack s =
     (if step s = Rationalize \<and> phase s = Done then s\<lparr>step := Preview\<rparr> else s)"
| "click ResultsNext s =
     (if step s = Rationalize \<and> phase s = Done then s\<lparr>step := Export\<rparr> else s)"
| "click DownloadCSV s = s"
| "click DownloadExcel s = s"
| "click StartOver s = (if step s = Export then initial else s)"

text \<open>The four timers started by the rationalize button. Their callbacks belong to the
  render in which the button was clicked, so the last one, which runs the pass, works on
  the merged headers and rows of that render, whatever the state has become when it
  fires; they are kept in the timer. When the pass throws, nothing is stored and the
  phase stays as it was.\<close>

datatype timer = After700 | After1600 | After2500 | After3400 "string list" "string list list"

definition startedTimers :: "session \<Rightarrow> timer list" where
  "startedTimers s =
     [After700, After1600, After2500,
      After3400 (mergedHeaders (consolidated s)) (mergedRows (consolidated s))]"

fun timeout :: "timer \<Rightarrow> session \<Rightarrow> session" where
  "timeout After700 s = s\<lparr>phase := Mapping\<rparr>"
| "timeout After1600 s = s\<lparr>phase := Deduplicating\<rparr>"
| "timeout After2500 s = s\<lparr>phase := Normalizing\<rparr>"
| "timeout (After3400 mergedHeaders0 mergedRows0) s =
     (case rationalize mergedRows0 of
        Inl e \<Rightarrow> s
      | Inr r \<Rightarrow> s\<lparr>rationHeaders := mergedHeaders0, outcome := r, phase := Done\<rparr>)"

section \<open>The specification's wording\<close>

text \<open>
  The specification speaks of the tokens of a string separated by white space: the maximal
  runs of characters that are not white space; and of capitalizing the first letter of a
  token, with the rest either lower-cased (cells) or kept (headers). The definitions
  below follow its wording and use nothing of the code but the case mappings of strings;
  they are compared with \<^term>\<open>titleCase\<close> and \<^term>\<open>titled\<close>, which follow the code.
\<close>

fun whitespace_tokens :: "string \<Rightarrow> string list" where
  "whitespace_tokens [] = []"
| "whitespace_tokens (ch # s) =
     (if isWhiteSpace ch then whitespace_tokens s
      else if s = [] \<or> isWhiteSpace (hd s) then [ch] # whitespace_tokens s
      else (case whitespace_tokens s of [] \<Rightarrow> [[ch]] | w # ws \<Rightarrow> (ch # w) # ws))"





section \<open>Notions used in the proofs\<close>

text \<open>Removal of white space at the end only, and lists of non-empty pieces free of white
  space.\<close>

definition rtrim :: "string \<Rightarrow> string" where
  "rtrim s = rev (dropWhile isWhiteSpace (rev s))"

definition words :: "string list \<Rightarrow> bool" where
  "words ws \<longleftrightarrow> (\<forall>w \<in> set ws. w \<noteq> [] \<and> (\<forall>c \<in> set w. \<not> isWhiteSpace c))"

text \<open>A table all of whose cells are trimmed already.\<close>

definition trimmedFile :: "FileData \<Rightarrow> bool" where
  "trimmedFile f \<longleftrightarrow> (\<forall>row \<in> set (rows f). \<forall>c \<in> set row. trim c = c)"

section \<open>Row counts\<close>

lemma length_normalizeRows:
  "normalizeRows rws k = (rs, k') \<Longrightarrow> length rs = length rws"
  by (induction rws arbitrary: k rs k') (auto split: prod.splits)

lemma dedupe_count:
  "dedupe rws seen deduped n = Inr (d, m) \<Longrightarrow> length d + m = length deduped + n + length rws"
  by (induction rws arbitrary: seen deduped n) (auto split: sum.splits if_splits)

text \<open>
  C2. Whenever the pass returns, the rows it keeps and the rows it reports as removed add
  up to the rows of the merged table; the removed count covers both the rows dropped as
  duplicates and the rows dropped as empty. The reported output row count is the number of
  rows kept.
\<close>

theorem row_count_conservation:
  assumes "rationalize T = Inr r"
  shows "length (rationRows r) + duplicatesRemoved r = length T
         \<and> outputRows r + duplicatesRemoved r = length T"
proof -
  obtain normalized k where nk:
    "normalizeRows T \<lparr>abbrFixed = 0, casingFixed = 0, wsFixed = 0\<rparr> = (normalized, k)"
    by (cases "normalizeRows T \<lparr>abbrFixed = 0, casingFixed = 0, wsFixed = 0\<rparr>")
  from assms nk obtain deduped dups where dd: "dedupe normalized [] [] 0 = Inr (deduped, dups)"
    by (auto simp: rationalize_def split: sum.splits)
  have len: "length normalized = length T"
    using length_normalizeRows [OF nk] .
  have cnt: "length deduped + dups = length T"
    using dedupe_count [OF dd] len by simp
  have le: "length (filter nonEmptyRow deduped) \<le> length deduped"
    by simp
  from assms nk dd have r: "rationRows r = filter nonEmptyRow deduped"
    "duplicatesRemoved r = dups + (length deduped - length (filter nonEmptyRow deduped))"
    "outputRows r = length (filter nonEmptyRow deduped)"
    by (auto simp: rationalize_def Let_def)
  show ?thesis unfolding r using cnt le by arith
qed

theorem row_count_conservation_witness:
  "rationalize [[''100'', ''5'', ''Widget''], [''100'', ''5'', ''WIDGET''], ['''', '''', '''']]
     = Inr \<lparr>rationRows = [[JString ''100'', JString ''5'', JString ''Widget'']],
             duplicatesRemoved = 2, abbreviationsFixed = 0, casingFixedStat = 1,
             whitespaceFixed = 0, outputRows = 1\<rparr>
   \<and> (1::nat) + 2 = 3"
proof -
  have run:
    "rationalize [[''100'', ''5'', ''Widget''], [''100'', ''5'', ''WIDGET''], ['''', '''', '''']]
     = Inr \<lparr>rationRows = [[JString ''100'', JString ''5'', JString ''Widget'']],
             duplicatesRemoved = 2, abbreviationsFixed = 0, casingFixedStat = 1,
             whitespaceFixed = 0, outputRows = 1\<rparr>"
    by code_simp
  from row_count_conservation [OF run] show ?thesis using run by simp
qed

section \<open>Totality\<close>

text \<open>
  C4. The pass is not total on tables of strings. A cell whose text is the name of a
  member that every object inherits, such as \<^verbatim>\<open>constructor\<close>, passes the truthiness test
  of the abbreviation step and is replaced by that member, which is not a string; the
  deduplication then calls \<^verbatim>\<open>toLowerCase\<close> on it and throws.
\<close>

theorem rationalize_throws_on_inherited_name:
  "rationalize [[''constructor'']] = Inl TypeError"
  by code_simp

section \<open>Running the pass twice\<close>

text \<open>
  C1. The pass is not idempotent on every table of strings. The upper-case cell below is
  longer than 3, so the casing step turns it into the lower-case name of the prototype
  accessor that every object inherits, and the first run returns a table with that cell. On
  that table the abbreviation step of the second run reads the inherited member, replaces
  the cell by it, and the deduplication throws.
\<close>

theorem second_run_throws:
  "rationalize [[''__PROTO__'']]
     = Inr \<lparr>rationRows = [[JString ''__proto__'']], duplicatesRemoved = 0,
             abbreviationsFixed = 0, casingFixedStat = 1, whitespaceFixed = 0, outputRows = 1\<rparr>
   \<and> rationalize [[''__proto__'']] = Inl TypeError"
  by code_simp

section \<open>White space, tokens and joins\<close>

lemma join_Cons: "ws \<noteq> [] \<Longrightarrow> join sep (w # ws) = w @ sep @ join sep ws"
  by (cases ws) auto

lemma join_Cons_Cons: "join sep ((ch # w) # ws) = ch # join sep (w # ws)"
  by (cases ws) auto

lemma trim_rtrim: "trim s = rtrim (dropWhile isWhiteSpace s)"
  by (simp add: trim_def rtrim_def)

lemma rtrim_Nil_iff: "rtrim s = [] \<longleftrightarrow> (\<forall>c \<in> set s. isWhiteSpace c)"
  by (simp add: rtrim_def dropWhile_eq_Nil_conv)

lemma rtrim_Nil [simp]: "rtrim [] = []"
  by (simp add: rtrim_def)

lemma rtrim_Cons: "rtrim (c # s) = (if rtrim s = [] \<and> isWhiteSpace c then [] else c # rtrim s)"
  by (auto simp: rtrim_def dropWhile_append dropWhile_eq_Nil_conv)

lemma isWhiteSpace_space [simp]: "isWhiteSpace CHR '' ''"
  by (simp add: isWhiteSpace_def)

lemma collapse_ws_Cons:
  "isWhiteSpace c \<Longrightarrow>
   collapseWhiteSpace (c # x) =
     (if x \<noteq> [] \<and> isWhiteSpace (hd x) then collapseWhiteSpace x else CHR '' '' # collapseWhiteSpace x)"
  by (cases x) auto

lemma tokens_Nil_iff: "whitespace_tokens s = [] \<longleftrightarrow> (\<forall>c \<in> set s. isWhiteSpace c)"
  by (induction s) (auto split: list.splits)

lemma hd_rtrim: "rtrim s \<noteq> [] \<Longrightarrow> hd (rtrim s) = hd s"
  by (cases s) (auto simp: rtrim_Cons split: if_splits)

lemma collapse_rtrim:
  "collapseWhiteSpace (rtrim s) =
     (if s \<noteq> [] \<and> isWhiteSpace (hd s) \<and> whitespace_tokens s \<noteq> [] then '' '' else [])
     @ join '' '' (whitespace_tokens s)"
proof (induction s)
  case Nil
  show ?case by simp
next
  case (Cons c s)
  show ?case
  proof (cases "isWhiteSpace c")
    case True
    show ?thesis
    proof (cases "whitespace_tokens s = []")
      case True
      moreover from True have "rtrim s = []" by (simp add: rtrim_Nil_iff tokens_Nil_iff)
      ultimately show ?thesis using \<open>isWhiteSpace c\<close>
        by (simp add: rtrim_Cons)
    next
      case False
      then have ne: "rtrim s \<noteq> []" by (simp add: rtrim_Nil_iff tokens_Nil_iff)
      then have sne: "s \<noteq> []" by auto
      have "collapseWhiteSpace (rtrim (c # s)) = collapseWhiteSpace (c # rtrim s)"
        using ne by (simp add: rtrim_Cons)
      also have "\<dots> = (if isWhiteSpace (hd s) then collapseWhiteSpace (rtrim s)
                        else CHR '' '' # collapseWhiteSpace (rtrim s))"
        using True ne by (simp add: collapse_ws_Cons hd_rtrim del: collapseWhiteSpace.simps)
      also have "\<dots> = '' '' @ join '' '' (whitespace_tokens s)"
        using Cons False sne by simp
      finally show ?thesis using True False by simp
    qed
  next
    case False
    then have step: "collapseWhiteSpace (rtrim (c # s)) = c # collapseWhiteSpace (rtrim s)"
      by (simp add: rtrim_Cons)
    consider "s = []" | "s \<noteq> []" "isWhiteSpace (hd s)" "whitespace_tokens s = []"
      | "s \<noteq> []" "isWhiteSpace (hd s)" "whitespace_tokens s \<noteq> []"
      | "s \<noteq> []" "\<not> isWhiteSpace (hd s)"
      by blast
    then show ?thesis
    proof cases
      case 1
      then show ?thesis using False step by simp
    next
      case 2
      then show ?thesis using False step Cons by simp
    next
      case 3
      then show ?thesis using False step Cons by (simp add: join_Cons)
    next
      case 4
      then have "whitespace_tokens s \<noteq> []"
        by (auto simp: tokens_Nil_iff)
      then obtain w ws where "whitespace_tokens s = w # ws"
        by (cases "whitespace_tokens s") auto
      then show ?thesis using 4 False step Cons by (simp add: join_Cons_Cons)
    qed
  qed
qed

lemma tokens_dropWhile: "whitespace_tokens (dropWhile isWhiteSpace s) = whitespace_tokens s"
  by (induction s) auto

lemma collapse_trim: "collapseWhiteSpace (trim s) = join '' '' (whitespace_tokens s)"
proof -
  have "dropWhile isWhiteSpace s \<noteq> [] \<Longrightarrow> \<not> isWhiteSpace (hd (dropWhile isWhiteSpace s))"
    by (rule hd_dropWhile)
  then show ?thesis
    unfolding trim_rtrim collapse_rtrim tokens_dropWhile by auto
qed

lemma words_Cons: "words (w # ws) \<longleftrightarrow> w \<noteq> [] \<and> (\<forall>c \<in> set w. \<not> isWhiteSpace c) \<and> words ws"
  by (auto simp: words_def)

lemma words_Nil [simp]: "words []"
  by (simp add: words_def)

lemma words_tokens: "words (whitespace_tokens s)"
proof (induction s)
  case Nil
  show ?case by simp
next
  case (Cons c s)
  then show ?case
    by (auto simp: words_Cons split: list.splits)
qed

lemma split_space_not_Nil [simp]: "split_space s \<noteq> []"
  by (induction s) (auto split: list.splits)

lemma split_space_word: "CHR '' '' \<notin> set w \<Longrightarrow> split_space w = [w]"
  by (induction w) auto

lemma split_space_append: "CHR '' '' \<notin> set w \<Longrightarrow> split_space (w @ CHR '' '' # r) = w # split_space r"
  by (induction w) auto

lemma split_space_join: "words ws \<Longrightarrow> ws \<noteq> [] \<Longrightarrow> split_space (join '' '' ws) = ws"
proof (induction ws)
  case Nil
  then show ?case by simp
next
  case (Cons w ws)
  from Cons.prems have w: "CHR '' '' \<notin> set w" and rest: "words ws"
    by (auto simp: words_Cons)
  show ?case
  proof (cases "ws = []")
    case True
    then show ?thesis using w by (simp add: split_space_word)
  next
    case False
    then show ?thesis using w rest Cons.IH
      by (simp add: join_Cons split_space_append del: split_space.simps)
  qed
qed

lemma tokens_word: "w \<noteq> [] \<Longrightarrow> \<forall>c \<in> set w. \<not> isWhiteSpace c \<Longrightarrow> whitespace_tokens w = [w]"
proof (induction w)
  case Nil
  then show ?case by simp
next
  case (Cons c w)
  then show ?case by (cases w) auto
qed

lemma tokens_append:
  "w \<noteq> [] \<Longrightarrow> \<forall>c \<in> set w. \<not> isWhiteSpace c \<Longrightarrow>
   whitespace_tokens (w @ CHR '' '' # r) = w # whitespace_tokens r"
proof (induction w)
  case Nil
  then show ?case by simp
next
  case (Cons c w)
  then show ?case by (cases w) auto
qed

lemma tokens_join: "words ws \<Longrightarrow> whitespace_tokens (join '' '' ws) = ws"
proof (induction ws)
  case Nil
  then show ?case by simp
next
  case (Cons w ws)
  from Cons.prems have w: "w \<noteq> []" "\<forall>c \<in> set w. \<not> isWhiteSpace c" and rest: "words ws"
    by (auto simp: words_Cons)
  show ?case
  proof (cases "ws = []")
    case True
    then show ?thesis using w by (simp add: tokens_word)
  next
    case False
    then show ?thesis using w rest Cons.IH
      by (simp add: join_Cons tokens_append del: whitespace_tokens.simps)
  qed
qed

lemma trim_tidy:
  assumes "s \<noteq> []" "\<not> isWhiteSpace (hd s)" "\<not> isWhiteSpace (last s)"
  shows "trim s = s"
proof -
  have "dropWhile isWhiteSpace s = s"
    using assms by (simp add: dropWhile_eq_self_iff)
  moreover have "dropWhile isWhiteSpace (rev s) = rev s"
    using assms by (simp add: dropWhile_eq_self_iff hd_rev)
  ultimately show ?thesis by (simp add: trim_def)
qed

lemma hd_join: "w \<noteq> [] \<Longrightarrow> hd (join sep (w # ws)) = hd w"
  by (cases ws) auto

lemma join_Nil_iff: "words ws \<Longrightarrow> join sep ws = [] \<longleftrightarrow> ws = []"
  by (cases ws) (auto simp: words_Cons join_Cons_Cons neq_Nil_conv)

lemma last_join: "words ws \<Longrightarrow> ws \<noteq> [] \<Longrightarrow> last (join sep ws) = last (last ws)"
proof (induction sep ws rule: join.induct)
  case (3 sep x y ys)
  from "3.prems" have w: "words (y # ys)" by (simp add: words_Cons)
  then have "join sep (y # ys) \<noteq> []" by (simp add: join_Nil_iff)
  then show ?case using "3.IH" w by simp
qed auto

lemma trim_join: "words ws \<Longrightarrow> trim (join '' '' ws) = join '' '' ws"
proof (cases ws)
  case Nil
  then show ?thesis by (simp add: trim_def)
next
  case (Cons w ws')
  assume ws: "words ws"
  with Cons have w: "w \<noteq> []" "\<not> isWhiteSpace (hd w)" by (auto simp: words_Cons)
  have "last ws \<in> set ws" using Cons by simp
  with ws have l: "last ws \<noteq> []" "\<not> isWhiteSpace (last (last ws))"
    by (auto simp: words_def)
  have ne: "join '' '' ws \<noteq> []" using ws Cons by (simp add: join_Nil_iff)
  have "\<not> isWhiteSpace (hd (join '' '' ws))" using w Cons by (simp add: hd_join)
  moreover have "\<not> isWhiteSpace (last (join '' '' ws))" using l ws Cons by (simp add: last_join)
  ultimately show ?thesis using ne by (rule_tac trim_tidy)
qed

lemma collapse_join: "words ws \<Longrightarrow> collapseWhiteSpace (join '' '' ws) = join '' '' ws"
  using collapse_trim [of "join '' '' ws"] by (simp add: trim_join tokens_join)

lemma titleCase_join: "words ws \<Longrightarrow> titleCase (join '' '' ws) = join '' '' (map capitalizeLower ws)"
  by (cases "ws = []") (simp_all add: titleCase_def split_space_join capitalizeLower_def)




section \<open>Counters of one cell\<close>

lemma abbreviation_own_key:
  assumes "c \<in> fst ` set VALUE_ABBREVIATIONS"
  shows "\<exists>v \<in> {''Each'', ''Pieces'', ''Numbers''}. abbreviation_lookup c = Some (JString v)"
  using assms by (auto simp: VALUE_ABBREVIATIONS_def abbreviation_lookup_def)

lemma expansions_mixed_case:
  "''Each'' \<noteq> toUpperCase ''Each''" "''Each'' \<noteq> toLowerCase ''Each''"
  "''Pieces'' \<noteq> toUpperCase ''Pieces''" "''Pieces'' \<noteq> toLowerCase ''Pieces''"
  "''Numbers'' \<noteq> toUpperCase ''Numbers''" "''Numbers'' \<noteq> toLowerCase ''Numbers''"
  by code_simp+

lemma fixCasing_expansion:
  assumes "v \<in> {''Each'', ''Pieces'', ''Numbers''}"
  shows "fixCasing (JString v) k = (JString v, k)"
  using assms expansions_mixed_case by (auto simp: fixCasing_def)

section \<open>The casing pass\<close>

lemma abbreviation_lookup_string:
  assumes "abbreviation_lookup c = Some (JString v)"
  shows "v \<in> {''Each'', ''Pieces'', ''Numbers''}"
proof -
  from assms have "map_of VALUE_ABBREVIATIONS c = Some v"
    by (auto simp: abbreviation_lookup_def split: option.splits if_splits)
  then have "(c, v) \<in> set VALUE_ABBREVIATIONS" by (rule map_of_SomeD)
  then show ?thesis by (auto simp: VALUE_ABBREVIATIONS_def)
qed



section \<open>The exported CSV\<close>

lemma header_with_quote_reaches_export:
  "mergedHeaders (mergeAndPreview
      [\<lparr>fileName = ''a.xlsx'', headers = [[CHR ''a'', CHR 0x22, CHR ''b'']], rows = [[''1'']]\<rparr>])
     = [[CHR ''A'', CHR 0x22, CHR ''b'']]"
  by code_simp

text \<open>
  C5. The header row is wrapped in double quotes but its inner double quotes are not
  doubled, while those of the data rows are: with the header and the one data cell both
  the three characters a, double quote, b, the file is the header line with five characters
  and the data line with six.
\<close>

theorem exportCSV_header_quote_not_doubled:
  "exportCSV [[CHR ''a'', CHR 0x22, CHR ''b'']] [[[CHR ''a'', CHR 0x22, CHR ''b'']]]
     = [CHR 0x22, CHR ''a'', CHR 0x22, CHR ''b'', CHR 0x22, CHR 0x0A,
        CHR 0x22, CHR ''a'', CHR 0x22, CHR 0x22, CHR ''b'', CHR 0x22]"
  by (simp add: exportCSV_def doubleQuotes_def)

text \<open>The same at a header that the merge itself produces from the uploaded header above.\<close>

lemma exportCSV_merged_header_quote_not_doubled:
  "exportCSV [[CHR ''A'', CHR 0x22, CHR ''b'']] [[[CHR ''A'', CHR 0x22, CHR ''b'']]]
     = [CHR 0x22, CHR ''A'', CHR 0x22, CHR ''b'', CHR 0x22, CHR 0x0A,
        CHR 0x22, CHR ''A'', CHR 0x22, CHR 0x22, CHR ''b'', CHR 0x22]"
  by (simp add: exportCSV_def doubleQuotes_def)

section \<open>Deduplication\<close>

text \<open>
  C3. The key of a row is its lower-cased cells joined with a vertical bar, so two rows
  that differ in every cell can have the same key when cells contain the bar: the second
  row below differs from the first in both cells and is removed as a duplicate.
\<close>

theorem dedupe_removes_distinct_row:
  "rationalize [[''a|'', ''b''], [''a'', ''|b'']]
     = Inr \<lparr>rationRows = [[JString ''a|'', JString ''b'']], duplicatesRemoved = 1,
             abbreviationsFixed = 0, casingFixedStat = 0, whitespaceFixed = 0, outputRows = 1\<rparr>"
  by code_simp

section \<open>Navigation\<close>

lemma timeout_step: "step (timeout t s) = step s"
  by (cases t) (auto split: sum.splits)

text \<open>
  C9, as stated: after a file is loaded, consolidated and sent to rationalization, the
  session is in the rationalize stage, and the stepper button of the upload step, which is
  enabled for every step already passed, sets the stage back to upload without a reset.
\<close>

theorem stepper_returns_to_upload_counterexample:
  "step (click RationalizeButton (click ConsolidateButton
      (click (IngestFiles [\<lparr>fileName = ''a.csv'', headers = [''qty''], rows = [[''1'']]\<rparr>]) initial)))
     = Rationalize
   \<and> step (click (StepperButton Upload) (click RationalizeButton (click ConsolidateButton
      (click (IngestFiles [\<lparr>fileName = ''a.csv'', headers = [''qty''], rows = [[''1'']]\<rparr>]) initial))))
     = Upload"
  by (simp add: initial_def)

text \<open>
  C9, amended: from a stage other than upload, a user action sets the stage to upload
  exactly when it is the back button of the preview stage, the stepper button of the upload
  step (enabled in the preview, rationalize and export stages), or the start-over link of
  the export stage.
\<close>

theorem return_to_upload:
  assumes "step s \<noteq> Upload"
  shows "step (click a s) = Upload \<longleftrightarrow>
           (a = PreviewBack \<and> step s = Preview) \<or> a = StepperButton Upload
           \<or> (a = StartOver \<and> step s = Export)"
proof (cases a)
  case (StepperButton t)
  then show ?thesis using assms by (cases t; cases "step s") auto
qed (use assms in \<open>auto simp: initial_def\<close>)

theorem return_to_upload_witness:
  "step (initial\<lparr>step := Export\<rparr>) \<noteq> Upload
   \<and> step (click (StepperButton Upload) (initial\<lparr>step := Export\<rparr>)) = Upload
   \<and> step (click ResultsBack (initial\<lparr>step := Export\<rparr>)) \<noteq> Upload"
proof -
  have h: "step (initial\<lparr>step := Export\<rparr>) \<noteq> Upload" by simp
  from return_to_upload [OF h, of "StepperButton Upload"]
  have a: "step (click (StepperButton Upload) (initial\<lparr>step := Export\<rparr>)) = Upload" by blast
  from return_to_upload [OF h, of ResultsBack]
  have b: "step (click ResultsBack (initial\<lparr>step := Export\<rparr>)) \<noteq> Upload" by blast
  from h a b show ?thesis by blast
qed

section \<open>Passthrough column names\<close>

lemma toUpperChar_space [simp]: "toUpperChar CHR '' '' = CHR '' ''"
  by (simp add: toUpperChar_def)


lemma toUpperChar_eq_space [simp]: "toUpperChar ch = CHR '' '' \<longleftrightarrow> ch = CHR '' ''"
proof -
  have "(of_char (toUpperChar ch) :: nat) = 32 \<longleftrightarrow> (of_char ch :: nat) = 32"
    by (auto simp: toUpperChar_def Let_def)
  moreover have "toUpperChar ch = CHR '' '' \<longleftrightarrow> (of_char (toUpperChar ch) :: nat) = of_char CHR '' ''"
    by (simp only: of_char_eq_iff)
  moreover have "ch = CHR '' '' \<longleftrightarrow> (of_char ch :: nat) = of_char CHR '' ''"
    by (simp only: of_char_eq_iff)
  ultimately show ?thesis by simp
qed








section \<open>Shape of the merged table\<close>

lemma indexOf_less: "indexOf xs x = Some i \<Longrightarrow> i < length xs"
  by (induction xs arbitrary: i) (auto split: if_splits)

lemma headerMapStep_bounds:
  assumes "\<And>i idx. hm i = Some idx \<Longrightarrow> idx < length (standardCols st) \<and> i < L"
    and "fst ih < L"
    and "headerMapStep st hm ih i = Some idx"
  shows "idx < length (standardCols st) \<and> i < L"
proof (cases "colMapping st (trim (toLowerCase (snd ih)))")
  case None
  then show ?thesis using assms(1,3) by (simp add: headerMapStep_def)
next
  case (Some standard)
  show ?thesis
  proof (cases "standard = [] \<or> indexOf (standardCols st) standard = None")
    case True
    then have "headerMapStep st hm ih = hm"
      using Some by (auto simp: headerMapStep_def)
    then show ?thesis using assms(1,3) by simp
  next
    case False
    then obtain j where j: "indexOf (standardCols st) standard = Some j" by auto
    then have step: "headerMapStep st hm ih = hm(fst ih \<mapsto> j)"
      using Some False by (simp add: headerMapStep_def)
    show ?thesis
    proof (cases "i = fst ih")
      case True
      then have "idx = j" using assms(3) step by simp
      then show ?thesis using indexOf_less [OF j] True assms(2) by simp
    next
      case False
      then have "hm i = Some idx" using assms(3) step by simp
      then show ?thesis by (rule assms(1))
    qed
  qed
qed

lemma foldl_headerMapStep_bounds:
  assumes "\<And>i idx. hm i = Some idx \<Longrightarrow> idx < length (standardCols st) \<and> i < L"
    and "\<And>ih. ih \<in> set xs \<Longrightarrow> fst ih < L"
    and "foldl (headerMapStep st) hm xs i = Some idx"
  shows "idx < length (standardCols st) \<and> i < L"
  using assms
proof (induction xs arbitrary: hm)
  case Nil
  then show ?case by simp
next
  case (Cons ih xs)
  have head: "fst ih < L" using Cons.prems(2) by simp
  show ?case
  proof (rule Cons.IH [of "headerMapStep st hm ih"])
    fix i' idx' assume "headerMapStep st hm ih i' = Some idx'"
    with Cons.prems(1) head show "idx' < length (standardCols st) \<and> i' < L"
      by (rule headerMapStep_bounds)
  next
    fix ih' assume "ih' \<in> set xs"
    then show "fst ih' < L" using Cons.prems(2) by simp
  next
    show "foldl (headerMapStep st) (headerMapStep st hm ih) xs i = Some idx"
      using Cons.prems(3) by simp
  qed
qed

lemma headerMap_bounds:
  assumes "headerMap st hs i = Some idx"
  shows "idx < length (standardCols st) \<and> i < length hs"
proof (rule foldl_headerMapStep_bounds [of Map.empty st "length hs" "zip [0 ..< length hs] hs" i idx])
  fix i' idx' assume "Map.empty i' = Some (idx' :: nat)"
  then show "idx' < length (standardCols st) \<and> (i' :: nat) < length hs" by simp
next
  fix ih assume "ih \<in> set (zip [0 ..< length hs] hs)"
  then have "(fst ih, snd ih) \<in> set (zip [0 ..< length hs] hs)" by simp
  then have "fst ih \<in> set [0 ..< length hs]" by (rule set_zip_leftD)
  then show "fst ih < length hs" by simp
next
  show "foldl (headerMapStep st) Map.empty (zip [0 ..< length hs] hs) i = Some idx"
    using assms by (simp add: headerMap_def)
qed

lemma zip_upt_fst:
  assumes "ic \<in> set (zip [a ..< b] xs)"
  shows "a \<le> fst ic \<and> fst ic < b"
proof -
  from assms have "(fst ic, snd ic) \<in> set (zip [a ..< b] xs)" by simp
  then have "fst ic \<in> set [a ..< b]" by (rule set_zip_leftD)
  then show ?thesis by simp
qed

lemma length_mergeCell:
  assumes "\<And>i idx. hm i = Some idx \<Longrightarrow> idx < length acc"
  shows "length (mergeCell hm acc ic) = length acc"
proof (cases "hm (fst ic)")
  case None
  then show ?thesis by (simp add: mergeCell_def)
next
  case (Some idx)
  then have "idx < length acc" by (rule assms)
  then show ?thesis using Some by (simp add: mergeCell_def array_assign_def)
qed

lemma length_foldl_mergeCell:
  assumes "\<And>i idx. hm i = Some idx \<Longrightarrow> idx < length acc"
  shows "length (foldl (mergeCell hm) acc xs) = length acc"
  using assms
proof (induction xs arbitrary: acc)
  case Nil
  then show ?case by simp
next
  case (Cons ic xs)
  have l: "length (mergeCell hm acc ic) = length acc"
    using Cons.prems by (rule length_mergeCell)
  have "length (foldl (mergeCell hm) (mergeCell hm acc ic) xs) = length (mergeCell hm acc ic)"
  proof (rule Cons.IH)
    fix i idx assume "hm i = Some idx"
    then show "idx < length (mergeCell hm acc ic)" unfolding l by (rule Cons.prems)
  qed
  then show ?case using l by simp
qed

lemma length_mergeRow:
  assumes "\<And>i idx. hm i = Some idx \<Longrightarrow> idx < n"
  shows "length (mergeRow n hm row) = n"
proof -
  have "length (foldl (mergeCell hm) (replicate n []) (zip [0 ..< length row] row))
      = length (replicate n ([] :: string))"
  proof (rule length_foldl_mergeCell)
    fix i idx assume "hm i = Some idx"
    then show "idx < length (replicate n ([] :: string))" using assms by simp
  qed
  then show ?thesis by (simp add: mergeRow_def)
qed

lemma mergeCell_untouched:
  assumes "hm (fst ic) \<noteq> Some j"
    and "\<And>i idx. hm i = Some idx \<Longrightarrow> idx < length acc"
  shows "mergeCell hm acc ic ! j = acc ! j"
proof (cases "hm (fst ic)")
  case None
  then show ?thesis by (simp add: mergeCell_def)
next
  case (Some idx)
  then have "idx < length acc" by (rule assms(2))
  moreover have "idx \<noteq> j" using Some assms(1) by simp
  ultimately show ?thesis using Some by (simp add: mergeCell_def array_assign_def)
qed

lemma foldl_mergeCell_untouched:
  assumes "\<And>ic. ic \<in> set xs \<Longrightarrow> hm (fst ic) \<noteq> Some j"
    and "\<And>i idx. hm i = Some idx \<Longrightarrow> idx < length acc"
  shows "foldl (mergeCell hm) acc xs ! j = acc ! j"
  using assms
proof (induction xs arbitrary: acc)
  case Nil
  then show ?case by simp
next
  case (Cons ic xs)
  have l: "length (mergeCell hm acc ic) = length acc"
    using Cons.prems(2) by (rule length_mergeCell)
  have same: "mergeCell hm acc ic ! j = acc ! j"
  proof (rule mergeCell_untouched)
    show "hm (fst ic) \<noteq> Some j" using Cons.prems(1) by simp
  next
    fix i idx assume "hm i = Some idx"
    then show "idx < length acc" by (rule Cons.prems(2))
  qed
  have "foldl (mergeCell hm) (mergeCell hm acc ic) xs ! j = mergeCell hm acc ic ! j"
  proof (rule Cons.IH)
    fix ic' assume "ic' \<in> set xs"
    then show "hm (fst ic') \<noteq> Some j" using Cons.prems(1) by simp
  next
    fix i idx assume "hm i = Some idx"
    then show "idx < length (mergeCell hm acc ic)" unfolding l by (rule Cons.prems(2))
  qed
  then show ?case using same by simp
qed

lemma mergeRow_default:
  assumes "\<And>i idx. hm i = Some idx \<Longrightarrow> idx < n"
    and "j < n" and "\<And>i. i < length row \<Longrightarrow> hm i \<noteq> Some j"
  shows "mergeRow n hm row ! j = []"
proof -
  have "foldl (mergeCell hm) (replicate n []) (zip [0 ..< length row] row) ! j
      = replicate n ([] :: string) ! j"
  proof (rule foldl_mergeCell_untouched)
    fix ic assume "ic \<in> set (zip [0 ..< length row] row)"
    then have "fst ic < length row" using zip_upt_fst by blast
    then show "hm (fst ic) \<noteq> Some j" by (rule assms(3))
  next
    fix i idx assume "hm i = Some idx"
    then show "idx < length (replicate n ([] :: string))" using assms(1) by simp
  qed
  then show ?thesis using assms(2) by (simp add: mergeRow_def)
qed

lemma foldl_mergeCell_unmapped:
  assumes "\<And>ic. ic \<in> set xs \<Longrightarrow> hm (fst ic) = None"
  shows "foldl (mergeCell hm) acc xs = acc"
  using assms by (induction xs arbitrary: acc) (simp_all add: mergeCell_def)

lemma zip_upt_split:
  assumes "k \<le> length row"
  shows "zip [0 ..< length row] row
           = zip [0 ..< k] (take k row) @ zip [k ..< length row] (drop k row)"
proof -
  have "[0 ..< length row] = [0 ..< k] @ [k ..< length row]"
    using assms upt_add_eq_append [of 0 k "length row - k"] by simp
  moreover have "row = take k row @ drop k row" by simp
  ultimately have "zip [0 ..< length row] row
      = zip ([0 ..< k] @ [k ..< length row]) (take k row @ drop k row)"
    by simp
  also have "\<dots> = zip [0 ..< k] (take k row) @ zip [k ..< length row] (drop k row)"
    by (rule zip_append) (use assms in simp)
  finally show ?thesis .
qed

lemma mergeRow_take:
  assumes "\<And>i. k \<le> i \<Longrightarrow> hm i = None"
  shows "mergeRow n hm row = mergeRow n hm (take k row)"
proof (cases "k \<le> length row")
  case False
  then show ?thesis by simp
next
  case True
  have "foldl (mergeCell hm) acc (zip [k ..< length row] (drop k row)) = acc" for acc
  proof (rule foldl_mergeCell_unmapped)
    fix ic assume "ic \<in> set (zip [k ..< length row] (drop k row))"
    then have "k \<le> fst ic" using zip_upt_fst by blast
    then show "hm (fst ic) = None" by (rule assms)
  qed
  moreover have "length (take k row) = k" using True by simp
  ultimately show ?thesis
    unfolding mergeRow_def zip_upt_split [OF True] by simp
qed

text \<open>
  C7. The merged rows are the rows of the files in order, each projected with the header
  map of its file. Every merged row has exactly as many cells as there are merged headers;
  a position to which the header map sends no cell of the source row holds the empty
  string; and the projection of a source row is that of its first cells up to the number
  of headers of its file, so that further cells are dropped. The merge has no failing
  step, whatever the lengths of the source rows.
\<close>

theorem merged_shape:
  "let m = mergeAndPreview fs;
       st = mapColumns (allSourceCols fs);
       n = length (mergedHeaders m)
   in mergedRows m = concat (map (\<lambda>f. map (mergeRow n (headerMap st (headers f))) (rows f)) fs)
      \<and> (\<forall>row \<in> set (mergedRows m). length row = n)
      \<and> (\<forall>f \<in> set fs. \<forall>row \<in> set (rows f).
            (\<forall>j < n. (\<forall>i < length row. headerMap st (headers f) i \<noteq> Some j)
                       \<longrightarrow> mergeRow n (headerMap st (headers f)) row ! j = [])
            \<and> mergeRow n (headerMap st (headers f)) row
                = mergeRow n (headerMap st (headers f)) (take (length (headers f)) row))"
proof -
  define st where "st = mapColumns (allSourceCols fs)"
  define n where "n = length (standardCols st)"
  have bounds: "idx < n" if "headerMap st hs i = Some idx" for hs i idx
    using headerMap_bounds [OF that] by (simp add: n_def)
  have beyond: "headerMap st hs i = None" if "length hs \<le> i" for hs i
  proof (cases "headerMap st hs i")
    case None
    then show ?thesis .
  next
    case (Some idx)
    from headerMap_bounds [OF this] that show ?thesis by simp
  qed
  have mf: "mergeFile st = (\<lambda>f. map (mergeRow n (headerMap st (headers f))) (rows f))"
    by (rule ext) (simp add: mergeFile_def n_def)
  have m1: "mergedRows (mergeAndPreview fs)
      = concat (map (\<lambda>f. map (mergeRow n (headerMap st (headers f))) (rows f)) fs)"
    by (simp add: mergeAndPreview_def Let_def st_def [symmetric] mf)
  have m2: "length (mergedHeaders (mergeAndPreview fs)) = n"
    by (simp add: mergeAndPreview_def Let_def st_def n_def)
  have lenrow: "length (mergeRow n (headerMap st hs) row) = n" for hs row
    by (rule length_mergeRow) (rule bounds)
  have len: "\<forall>row \<in> set (mergedRows (mergeAndPreview fs)). length row = n"
    unfolding m1 using lenrow by auto
  have dflt: "mergeRow n (headerMap st hs) row ! j = []"
    if "j < n" "\<forall>i < length row. headerMap st hs i \<noteq> Some j" for hs row j
    by (rule mergeRow_default) (use that bounds in auto)
  have tk: "mergeRow n (headerMap st hs) row = mergeRow n (headerMap st hs) (take (length hs) row)"
    for hs row
    by (rule mergeRow_take) (rule beyond)
  have "mergedRows (mergeAndPreview fs)
          = concat (map (\<lambda>f. map (mergeRow n (headerMap st (headers f))) (rows f)) fs)
      \<and> (\<forall>row \<in> set (mergedRows (mergeAndPreview fs)). length row = n)
      \<and> (\<forall>f \<in> set fs. \<forall>row \<in> set (rows f).
            (\<forall>j < n. (\<forall>i < length row. headerMap st (headers f) i \<noteq> Some j)
                       \<longrightarrow> mergeRow n (headerMap st (headers f)) row ! j = [])
            \<and> mergeRow n (headerMap st (headers f)) row
                = mergeRow n (headerMap st (headers f)) (take (length (headers f)) row))"
  proof (intro conjI ballI allI impI)
    show "mergedRows (mergeAndPreview fs)
          = concat (map (\<lambda>f. map (mergeRow n (headerMap st (headers f))) (rows f)) fs)"
      by (rule m1)
  next
    fix row assume "row \<in> set (mergedRows (mergeAndPreview fs))"
    then show "length row = n" using len by blast
  next
    fix f :: FileData and row :: "string list" and j
    assume "j < n" "\<forall>i < length row. headerMap st (headers f) i \<noteq> Some j"
    then show "mergeRow n (headerMap st (headers f)) row ! j = []" by (rule dflt)
  next
    fix f :: FileData and row :: "string list"
    show "mergeRow n (headerMap st (headers f)) row
                = mergeRow n (headerMap st (headers f)) (take (length (headers f)) row)"
      by (rule tk)
  qed
  then show ?thesis
    unfolding Let_def m2 st_def .
qed

theorem merged_shape_witness:
  "mergedHeaders (mergeAndPreview
      [\<lparr>fileName = ''a.csv'', headers = [''Part Number'', ''Qty''],
         rows = [[''100'', ''5'', ''extra''], [''200'']]\<rparr>,
       \<lparr>fileName = ''b.csv'', headers = [''P/N'', ''Color''], rows = [[''300'', ''red'']]\<rparr>])
     = [''Part Number'', ''Quantity'', ''Color'']
   \<and> mergedRows (mergeAndPreview
      [\<lparr>fileName = ''a.csv'', headers = [''Part Number'', ''Qty''],
         rows = [[''100'', ''5'', ''extra''], [''200'']]\<rparr>,
       \<lparr>fileName = ''b.csv'', headers = [''P/N'', ''Color''], rows = [[''300'', ''red'']]\<rparr>])
     = [[''100'', ''5'', ''''], [''200'', '''', ''''], [''300'', '''', ''red'']]
   \<and> map length [[''100'', ''5'', ''''], [''200'', '''', ''''], [''300'', '''', ''red'']]
       = [3, 3, 3 :: nat]
   \<and> mergeRow 3 (headerMap (mapColumns (allSourceCols
      [\<lparr>fileName = ''a.csv'', headers = [''Part Number'', ''Qty''],
         rows = [[''100'', ''5'', ''extra''], [''200'']]\<rparr>,
       \<lparr>fileName = ''b.csv'', headers = [''P/N'', ''Color''], rows = [[''300'', ''red'']]\<rparr>]))
        [''Part Number'', ''Qty'']) [''200''] ! 1 = []
   \<and> mergeRow 3 (headerMap (mapColumns (allSourceCols
      [\<lparr>fileName = ''a.csv'', headers = [''Part Number'', ''Qty''],
         rows = [[''100'', ''5'', ''extra''], [''200'']]\<rparr>,
       \<lparr>fileName = ''b.csv'', headers = [''P/N'', ''Color''], rows = [[''300'', ''red'']]\<rparr>]))
        [''Part Number'', ''Qty'']) [''100'', ''5'', ''extra'']
     = mergeRow 3 (headerMap (mapColumns (allSourceCols
      [\<lparr>fileName = ''a.csv'', headers = [''Part Number'', ''Qty''],
         rows = [[''100'', ''5'', ''extra''], [''200'']]\<rparr>,
       \<lparr>fileName = ''b.csv'', headers = [''P/N'', ''Color''], rows = [[''300'', ''red'']]\<rparr>]))
        [''Part Number'', ''Qty'']) [''100'', ''5'']"
proof -
  let ?a = "\<lparr>fileName = ''a.csv'', headers = [''Part Number'', ''Qty''],
         rows = [[''100'', ''5'', ''extra''], [''200'']]\<rparr>"
  let ?fs = "[?a,
       \<lparr>fileName = ''b.csv'', headers = [''P/N'', ''Color''], rows = [[''300'', ''red'']]\<rparr>]"
  let ?hm = "headerMap (mapColumns (allSourceCols ?fs)) [''Part Number'', ''Qty'']"
  have h: "mergedHeaders (mergeAndPreview ?fs) = [''Part Number'', ''Quantity'', ''Color'']"
    by code_simp
  have r: "mergedRows (mergeAndPreview ?fs)
     = [[''100'', ''5'', ''''], [''200'', '''', ''''], [''300'', '''', ''red'']]"
    by code_simp
  have n: "length (mergedHeaders (mergeAndPreview ?fs)) = 3" unfolding h by simp
  have hm0: "?hm 0 \<noteq> Some 1" by code_simp
  note shape = merged_shape [of ?fs, unfolded Let_def n]
  from shape have "\<forall>row \<in> set (mergedRows (mergeAndPreview ?fs)). length row = 3"
    by (rule conjunct1 [OF conjunct2])
  then have lens: "map length [[''100'', ''5'', ''''], [''200'', '''', ''''], [''300'', '''', ''red'']]
       = [3, 3, 3 :: nat]"
    unfolding r by simp
  have a: "?a \<in> set ?fs" by simp
  have at_a: "\<forall>row \<in> set (rows ?a).
            (\<forall>j < 3. (\<forall>i < length row.
                 headerMap (mapColumns (allSourceCols ?fs)) (headers ?a) i \<noteq> Some j)
               \<longrightarrow> mergeRow 3 (headerMap (mapColumns (allSourceCols ?fs)) (headers ?a)) row ! j = [])
            \<and> mergeRow 3 (headerMap (mapColumns (allSourceCols ?fs)) (headers ?a)) row
                = mergeRow 3 (headerMap (mapColumns (allSourceCols ?fs)) (headers ?a))
                    (take (length (headers ?a)) row)"
    by (rule bspec [OF conjunct2 [OF conjunct2 [OF shape]] a])
  have short: "[''200''] \<in> set (rows ?a)" by simp
  have long: "[''100'', ''5'', ''extra''] \<in> set (rows ?a)" by simp
  from bspec [OF at_a short] hm0 have dflt: "mergeRow 3 ?hm [''200''] ! 1 = []" by simp
  from bspec [OF at_a long]
  have tk: "mergeRow 3 ?hm [''100'', ''5'', ''extra''] = mergeRow 3 ?hm [''100'', ''5'']"
    by simp
  from h r lens dflt tk show ?thesis by blast
qed

section \<open>Case mapping of characters\<close>

lemma of_char_toUpperChar:
  "(of_char (toUpperChar x) :: nat) =
     (if 97 \<le> (of_char x :: nat) \<and> (of_char x :: nat) \<le> 122 then of_char x - 32 else of_char x)"
  by (auto simp: toUpperChar_def Let_def)

lemma of_char_toLowerChar:
  "(of_char (toLowerChar x) :: nat) =
     (if 65 \<le> (of_char x :: nat) \<and> (of_char x :: nat) \<le> 90 then of_char x + 32 else of_char x)"
  by (auto simp: toLowerChar_def Let_def)

lemma char_eq_iff_nat: "x = y \<longleftrightarrow> (of_char x :: nat) = of_char y"
  by simp

lemma toUpperChar_idem [simp]: "toUpperChar (toUpperChar x) = toUpperChar x"
  unfolding char_eq_iff_nat [of "toUpperChar (toUpperChar x)"] of_char_toUpperChar by auto

lemma toLowerChar_idem [simp]: "toLowerChar (toLowerChar x) = toLowerChar x"
  unfolding char_eq_iff_nat [of "toLowerChar (toLowerChar x)"] of_char_toLowerChar by auto

lemma isWhiteSpace_toUpperChar [simp]: "isWhiteSpace (toUpperChar x) = isWhiteSpace x"
  unfolding isWhiteSpace_def Let_def of_char_toUpperChar by auto

lemma isWhiteSpace_toLowerChar [simp]: "isWhiteSpace (toLowerChar x) = isWhiteSpace x"
  unfolding isWhiteSpace_def Let_def of_char_toLowerChar by auto

lemma toUpperChar_not_lower:
  "\<not> (97 \<le> (of_char (toUpperChar x) :: nat) \<and> (of_char (toUpperChar x) :: nat) \<le> 122)"
  unfolding of_char_toUpperChar by auto

lemma toUpperChar_neq_p [simp]: "toUpperChar x \<noteq> CHR ''p''" "toUpperChar x \<noteq> CHR ''n''"
  using toUpperChar_not_lower [of x] by (auto simp: char_eq_iff_nat [of "toUpperChar x"])

section \<open>Cells that the pass leaves alone\<close>

text \<open>A string that one run produced for a cell is left as it is, with no counter
  touched, by any later run that does not replace it by an inherited member.\<close>

lemma capitalizeLower_idem [simp]: "capitalizeLower (capitalizeLower w) = capitalizeLower w"
  by (cases w) (simp_all add: capitalizeLower_def toLowerCase_def)

lemma length_capitalizeLower [simp]: "length (capitalizeLower w) = length w"
  by (cases w) (simp_all add: capitalizeLower_def toLowerCase_def)

lemma words_map_capitalizeLower:
  assumes "words ws"
  shows "words (map capitalizeLower ws)"
  unfolding words_def
proof
  fix w assume "w \<in> set (map capitalizeLower ws)"
  then obtain u where u: "u \<in> set ws" "w = capitalizeLower u" by auto
  with assms have un: "u \<noteq> []" and uc: "\<forall>c \<in> set u. \<not> isWhiteSpace c"
    by (auto simp: words_def)
  from un obtain x r where xr: "u = x # r" by (cases u) auto
  have "w \<noteq> []" using u xr by (simp add: capitalizeLower_def)
  moreover have "\<forall>c \<in> set w. \<not> isWhiteSpace c"
    using u xr uc by (auto simp: capitalizeLower_def toLowerCase_def)
  ultimately show "w \<noteq> [] \<and> (\<forall>c \<in> set w. \<not> isWhiteSpace c)" ..
qed

lemma length_join_map:
  assumes "\<And>w. length (f w) = length w"
  shows "length (join sep (map f ws)) = length (join sep ws)"
  by (induction sep ws rule: join.induct) (simp_all add: assms)

lemma hd_join_capitalizeLower:
  assumes "words ws" "ws \<noteq> []"
  shows "hd (join '' '' (map capitalizeLower ws)) = toUpperChar (hd (hd ws))"
proof -
  from assms obtain w rest where ws: "ws = w # rest" by (cases ws) auto
  with assms(1) obtain x r where w: "w = x # r" by (cases w) (auto simp: words_Cons)
  show ?thesis unfolding ws w by (simp add: capitalizeLower_def join_Cons_Cons)
qed

lemma expansions_stable:
  assumes "v \<in> {''Each'', ''Pieces'', ''Numbers''}"
  shows "trim v = v \<and> collapseWhiteSpace v = v \<and> abbreviation_lookup v = None"
proof -
  have "trim ''Each'' = ''Each'' \<and> collapseWhiteSpace ''Each'' = ''Each''
        \<and> abbreviation_lookup ''Each'' = None" by code_simp
  moreover have "trim ''Pieces'' = ''Pieces'' \<and> collapseWhiteSpace ''Pieces'' = ''Pieces''
        \<and> abbreviation_lookup ''Pieces'' = None" by code_simp
  moreover have "trim ''Numbers'' = ''Numbers'' \<and> collapseWhiteSpace ''Numbers'' = ''Numbers''
        \<and> abbreviation_lookup ''Numbers'' = None" by code_simp
  ultimately show ?thesis using assms by blast
qed

lemma own_key_long:
  assumes "map_of VALUE_ABBREVIATIONS s = Some v" "length s > 3"
  shows "hd s = CHR ''p'' \<or> hd s = CHR ''n''"
proof -
  from assms(1) have "(s, v) \<in> set VALUE_ABBREVIATIONS" by (rule map_of_SomeD)
  then show ?thesis using assms(2) by (auto simp: VALUE_ABBREVIATIONS_def)
qed

lemma fixWhiteSpace_join:
  assumes "words us"
  shows "fixWhiteSpace (join '' '' us) j = (join '' '' us, j)"
  using assms by (simp add: fixWhiteSpace_def trim_join collapse_join)

lemma normalizeCell_stable:
  assumes run1: "normalizeCell cell k = (JString s, k')"
    and ok: "fst (normalizeCell s j) \<noteq> JObject"
  shows "normalizeCell s j = (JString s, j)"
proof -
  define ws where "ws = whitespace_tokens cell"
  define c0 where "c0 = collapseWhiteSpace (trim cell)"
  define k1 where "k1 = snd (fixWhiteSpace cell k)"
  have c0: "c0 = join '' '' ws" by (simp add: c0_def ws_def collapse_trim)
  have w: "words ws" by (simp add: ws_def words_tokens)
  have fw: "fixWhiteSpace cell k = (c0, k1)"
    by (simp add: fixWhiteSpace_def c0_def k1_def Let_def)
  show ?thesis
  proof (cases "abbreviation_lookup c0")
    case None
    then have fa: "fixAbbreviation c0 i = (JString c0, i)" for i
      by (simp add: fixAbbreviation_def)
    have fc: "fixCasing (JString c0) k1 = (JString s, k')"
      using run1 by (simp add: normalizeCell_def fw fa)
    show ?thesis
    proof (cases "length c0 > 3 \<and> (c0 = toUpperCase c0 \<or> c0 = toLowerCase c0)
                  \<and> titleCase c0 \<noteq> c0")
      case False
      then have "fixCasing (JString c0) i = (JString c0, i)" for i
        by (auto simp: fixCasing_def Let_def)
      moreover from this fc have "s = c0" by simp
      ultimately show ?thesis
        using fixWhiteSpace_join [OF w] by (simp add: normalizeCell_def c0 [symmetric] fa)
    next
      case True
      then have s: "s = titleCase c0" using fc by (simp add: fixCasing_def Let_def)
      have ne: "ws \<noteq> []" using True c0 by auto
      have s': "s = join '' '' (map capitalizeLower ws)"
        using s c0 w by (simp add: titleCase_join)
      have w': "words (map capitalizeLower ws)" using w by (rule words_map_capitalizeLower)
      have len: "length s > 3"
        using True unfolding s' c0 by (simp add: length_join_map)
      have hd: "hd s = toUpperChar (hd (hd ws))"
        unfolding s' using w ne by (rule hd_join_capitalizeLower)
      have fws: "fixWhiteSpace s i = (s, i)" for i
        unfolding s' using w' by (rule fixWhiteSpace_join)
      have look: "abbreviation_lookup s = None"
      proof (cases "abbreviation_lookup s")
        case None
        then show ?thesis .
      next
        case (Some v)
        show ?thesis
        proof (cases v)
          case JObject
          then have "fst (normalizeCell s j) = JObject"
            using Some by (simp add: normalizeCell_def fws fixAbbreviation_def fixCasing_def)
          then show ?thesis using ok by simp
        next
          case (JString e)
          then have "map_of VALUE_ABBREVIATIONS s = Some e"
            using Some by (auto simp: abbreviation_lookup_def split: option.splits if_splits)
          from own_key_long [OF this len] hd show ?thesis by simp
        qed
      qed
      have tc: "titleCase s = s"
        unfolding s' using w' by (simp add: titleCase_join comp_def)
      have "fixCasing (JString s) i = (JString s, i)" for i
        by (simp add: fixCasing_def Let_def tc)
      then show ?thesis
        using look by (simp add: normalizeCell_def fws fixAbbreviation_def)
    qed
  next
    case (Some v)
    show ?thesis
    proof (cases v)
      case JObject
      then have "fst (normalizeCell cell k) = JObject"
        using Some by (simp add: normalizeCell_def fw fixAbbreviation_def fixCasing_def)
      then show ?thesis using run1 by simp
    next
      case (JString e)
      with Some have e: "e \<in> {''Each'', ''Pieces'', ''Numbers''}"
        using abbreviation_lookup_string [of c0 e] by simp
      have "normalizeCell cell k = (JString e, k1\<lparr>abbrFixed := abbrFixed k1 + 1\<rparr>)"
        using Some JString fixCasing_expansion [OF e]
        by (simp add: normalizeCell_def fw fixAbbreviation_def)
      then have "s = e" using run1 by simp
      then show ?thesis
        using expansions_stable [OF e] fixCasing_expansion [OF e]
        by (simp add: normalizeCell_def fixWhiteSpace_def fixAbbreviation_def)
    qed
  qed
qed

section \<open>Runs that return\<close>

text \<open>The value of a cell does not depend on the counters; a returning run has only
  strings in its rows, and the rows it keeps have pairwise different keys.\<close>

lemma fixWhiteSpace_fst: "fst (fixWhiteSpace c k) = collapseWhiteSpace (trim c)"
  by (simp add: fixWhiteSpace_def Let_def)

lemma fixAbbreviation_fst: "fst (fixAbbreviation c k) = fst (fixAbbreviation c j)"
  by (cases "abbreviation_lookup c") (simp_all add: fixAbbreviation_def)

lemma fixCasing_fst: "fst (fixCasing v k) = fst (fixCasing v j)"
  by (cases v) (simp_all add: fixCasing_def Let_def)

lemma normalizeCell_fst:
  "fst (normalizeCell c k)
     = fst (fixCasing (fst (fixAbbreviation (collapseWhiteSpace (trim c)) z)) z)"
proof -
  obtain c0 k1 where w: "fixWhiteSpace c k = (c0, k1)" by (cases "fixWhiteSpace c k")
  obtain v k2 where a: "fixAbbreviation c0 k1 = (v, k2)" by (cases "fixAbbreviation c0 k1")
  have c0: "c0 = collapseWhiteSpace (trim c)" using w fixWhiteSpace_fst [of c k] by simp
  have v: "v = fst (fixAbbreviation c0 z)" using a fixAbbreviation_fst [of c0 k1 z] by simp
  have "fst (normalizeCell c k) = fst (fixCasing v k2)"
    by (simp add: normalizeCell_def w a)
  also have "\<dots> = fst (fixCasing v z)" by (rule fixCasing_fst)
  finally show ?thesis unfolding v c0 .
qed

lemma normalizeCell_fst_indep: "fst (normalizeCell c k) = fst (normalizeCell c j)"
  using normalizeCell_fst [of c k k] normalizeCell_fst [of c j k] by simp

lemma normalizeRow_cells:
  "normalizeRow row k = (vs, k') \<Longrightarrow> vs = map (\<lambda>c. fst (normalizeCell c z)) row"
proof (induction row arbitrary: k vs k')
  case Nil
  then show ?case by simp
next
  case (Cons c row)
  obtain v k1 where c: "normalizeCell c k = (v, k1)" by (cases "normalizeCell c k")
  obtain us k2 where r: "normalizeRow row k1 = (us, k2)" by (cases "normalizeRow row k1")
  have "v = fst (normalizeCell c z)"
    using c normalizeCell_fst_indep [of c k z] by simp
  moreover have "us = map (\<lambda>c. fst (normalizeCell c z)) row" using r by (rule Cons.IH)
  moreover have "vs = v # us" using Cons.prems c r by simp
  ultimately show ?case by simp
qed

lemma normalizeRows_cells:
  "normalizeRows rws k = (rs, k') \<Longrightarrow> rs = map (map (\<lambda>c. fst (normalizeCell c z))) rws"
proof (induction rws arbitrary: k rs k')
  case Nil
  then show ?case by simp
next
  case (Cons row rws)
  obtain vs k1 where c: "normalizeRow row k = (vs, k1)" by (cases "normalizeRow row k")
  obtain us k2 where r: "normalizeRows rws k1 = (us, k2)" by (cases "normalizeRows rws k1")
  have "vs = map (\<lambda>c. fst (normalizeCell c z)) row" using c by (rule normalizeRow_cells)
  moreover have "us = map (map (\<lambda>c. fst (normalizeCell c z))) rws" using r by (rule Cons.IH)
  moreover have "rs = vs # us" using Cons.prems c r by simp
  ultimately show ?case by simp
qed

lemma normalizeRow_stable:
  assumes "\<And>c j. c \<in> set row \<Longrightarrow> normalizeCell c j = (JString c, j)"
  shows "normalizeRow row k = (map JString row, k)"
  using assms by (induction row arbitrary: k) simp_all

lemma normalizeRows_stable:
  assumes "\<And>row c j. row \<in> set rws \<Longrightarrow> c \<in> set row \<Longrightarrow> normalizeCell c j = (JString c, j)"
  shows "normalizeRows rws k = (map (map JString) rws, k)"
  using assms
proof (induction rws arbitrary: k)
  case Nil
  then show ?case by simp
next
  case (Cons row rws)
  have "normalizeRow row k = (map JString row, k)"
  proof (rule normalizeRow_stable)
    fix c j assume "c \<in> set row"
    then show "normalizeCell c j = (JString c, j)" using Cons.prems [of row c j] by simp
  qed
  moreover have "normalizeRows rws k = (map (map JString) rws, k)"
  proof (rule Cons.IH)
    fix row' c j assume "row' \<in> set rws" "c \<in> set row'"
    then show "normalizeCell c j = (JString c, j)" using Cons.prems [of row' c j] by simp
  qed
  ultimately show ?case by simp
qed

lemma lowerCells_strings: "lowerCells vs = Inr ss \<Longrightarrow> JObject \<notin> set vs"
proof (induction vs arbitrary: ss)
  case Nil
  then show ?case by simp
next
  case (Cons v vs)
  then show ?case by (cases v) (auto split: sum.splits)
qed

lemma rowKey_strings: "rowKey row = Inr key \<Longrightarrow> JObject \<notin> set row"
  by (auto simp: rowKey_def split: sum.splits dest: lowerCells_strings)

lemma dedupe_strings:
  "dedupe rws seen acc n = Inr x \<Longrightarrow> row \<in> set rws \<Longrightarrow> JObject \<notin> set row"
proof (induction rws arbitrary: seen acc n)
  case Nil
  then show ?case by simp
next
  case (Cons r rws)
  from Cons.prems(1) obtain key where key: "rowKey r = Inr key"
    by (cases "rowKey r") auto
  show ?case
  proof (cases "row = r")
    case True
    then show ?thesis using key rowKey_strings by blast
  next
    case False
    then have "row \<in> set rws" using Cons.prems(2) by simp
    moreover have "\<exists>seen' acc' n'. dedupe rws seen' acc' n' = Inr x"
      using Cons.prems(1) key by (auto split: if_splits)
    ultimately show ?thesis using Cons.IH by blast
  qed
qed

lemma dedupe_subset:
  "dedupe rws seen acc n = Inr (d, m) \<Longrightarrow> set d \<subseteq> set acc \<union> set rws"
proof (induction rws arbitrary: seen acc n)
  case Nil
  then show ?case by simp
next
  case (Cons r rws)
  from Cons.prems obtain key where key: "rowKey r = Inr key"
    by (cases "rowKey r") auto
  show ?case
  proof (cases "key \<in> set seen")
    case True
    then have "dedupe rws seen acc (n + 1) = Inr (d, m)" using Cons.prems key by simp
    from Cons.IH [OF this] show ?thesis by auto
  next
    case False
    then have "dedupe rws (key # seen) (acc @ [r]) n = Inr (d, m)" using Cons.prems key by simp
    from Cons.IH [OF this] show ?thesis by auto
  qed
qed

lemma dedupe_distinct:
  assumes "dedupe rws seen acc n = Inr (d, m)"
    and "distinct (map rowKey acc)" and "rowKey ` set acc \<subseteq> Inr ` set seen"
  shows "distinct (map rowKey d) \<and> rowKey ` set d \<subseteq> range Inr"
  using assms
proof (induction rws arbitrary: seen acc n)
  case Nil
  then show ?case by auto
next
  case (Cons r rws)
  from Cons.prems(1) obtain key where key: "rowKey r = Inr key"
    by (cases "rowKey r") auto
  show ?case
  proof (cases "key \<in> set seen")
    case True
    then have "dedupe rws seen acc (n + 1) = Inr (d, m)" using Cons.prems(1) key by simp
    then show ?thesis using Cons.prems(2,3) by (rule Cons.IH)
  next
    case False
    then have run: "dedupe rws (key # seen) (acc @ [r]) n = Inr (d, m)"
      using Cons.prems(1) key by simp
    have "rowKey r \<notin> rowKey ` set acc" using False key Cons.prems(3) by auto
    then have d: "distinct (map rowKey (acc @ [r]))" using Cons.prems(2) by simp
    have s: "rowKey ` set (acc @ [r]) \<subseteq> Inr ` set (key # seen)"
      using Cons.prems(3) key by auto
    from run d s show ?thesis by (rule Cons.IH)
  qed
qed

lemma dedupe_all_kept:
  assumes "distinct (map rowKey rws)"
    and "\<And>row. row \<in> set rws \<Longrightarrow> \<exists>key. rowKey row = Inr key \<and> key \<notin> set seen"
  shows "dedupe rws seen acc n = Inr (acc @ rws, n)"
  using assms
proof (induction rws arbitrary: seen acc)
  case Nil
  then show ?case by simp
next
  case (Cons r rws)
  from Cons.prems(2) [of r] obtain key where key: "rowKey r = Inr key" "key \<notin> set seen"
    by auto
  have "dedupe rws (key # seen) (acc @ [r]) n = Inr ((acc @ [r]) @ rws, n)"
  proof (rule Cons.IH)
    show "distinct (map rowKey rws)" using Cons.prems(1) by simp
  next
    fix row assume row: "row \<in> set rws"
    with Cons.prems(2) [of row] obtain k' where k': "rowKey row = Inr k'" "k' \<notin> set seen"
      by auto
    have "rowKey r \<notin> rowKey ` set rws" using Cons.prems(1) by simp
    then have "rowKey row \<noteq> rowKey r" using row by (metis imageI)
    then have "k' \<noteq> key" using k' key by auto
    then show "\<exists>key'. rowKey row = Inr key' \<and> key' \<notin> set (key # seen)"
      using k' by auto
  qed
  then show ?case using key by simp
qed

text \<open>When the pass returns on a table of ASCII cells and returns again on its own
  output, the second run gives the same rows and counts nothing.\<close>

lemma rationalize_InrE:
  assumes "rationalize T = Inr r"
  obtains N k D n where
    "normalizeRows T \<lparr>abbrFixed = 0, casingFixed = 0, wsFixed = 0\<rparr> = (N, k)"
    "dedupe N [] [] 0 = Inr (D, n)"
    "r = \<lparr>rationRows = filter nonEmptyRow D,
           duplicatesRemoved = n + (length D - length (filter nonEmptyRow D)),
           abbreviationsFixed = abbrFixed k, casingFixedStat = casingFixed k,
           whitespaceFixed = wsFixed k, outputRows = length (filter nonEmptyRow D)\<rparr>"
proof -
  obtain N k where nk:
    "normalizeRows T \<lparr>abbrFixed = 0, casingFixed = 0, wsFixed = 0\<rparr> = (N, k)"
    by (cases "normalizeRows T \<lparr>abbrFixed = 0, casingFixed = 0, wsFixed = 0\<rparr>")
  from assms nk obtain D n where dd: "dedupe N [] [] 0 = Inr (D, n)"
    by (auto simp: rationalize_def split: sum.splits)
  from assms nk dd have
    "r = \<lparr>rationRows = filter nonEmptyRow D,
           duplicatesRemoved = n + (length D - length (filter nonEmptyRow D)),
           abbreviationsFixed = abbrFixed k, casingFixedStat = casingFixed k,
           whitespaceFixed = wsFixed k, outputRows = length (filter nonEmptyRow D)\<rparr>"
    by (simp add: rationalize_def Let_def)
  with nk dd show thesis by (rule that)
qed

lemma rationalize_twice:
  assumes ascii: "\<forall>row \<in> set T. \<forall>cell \<in> set row. isAscii cell"
    and first: "rationalize T = Inr r"
    and strings: "rationRows r = map (map JString) S"
    and second: "rationalize S = Inr r'"
  shows "r' = r\<lparr>duplicatesRemoved := 0, abbreviationsFixed := 0, casingFixedStat := 0,
                whitespaceFixed := 0\<rparr>"
proof -
  let ?z = "\<lparr>abbrFixed = 0, casingFixed = 0, wsFixed = 0\<rparr>"
  from first obtain N k D n where
    N: "normalizeRows T ?z = (N, k)" and D: "dedupe N [] [] 0 = Inr (D, n)"
    and r: "r = \<lparr>rationRows = filter nonEmptyRow D,
           duplicatesRemoved = n + (length D - length (filter nonEmptyRow D)),
           abbreviationsFixed = abbrFixed k, casingFixedStat = casingFixed k,
           whitespaceFixed = wsFixed k, outputRows = length (filter nonEmptyRow D)\<rparr>"
    by (rule rationalize_InrE)
  from second obtain N2 k2 D2 n2 where
    N2: "normalizeRows S ?z = (N2, k2)" and D2: "dedupe N2 [] [] 0 = Inr (D2, n2)"
    and r': "r' = \<lparr>rationRows = filter nonEmptyRow D2,
           duplicatesRemoved = n2 + (length D2 - length (filter nonEmptyRow D2)),
           abbreviationsFixed = abbrFixed k2, casingFixedStat = casingFixed k2,
           whitespaceFixed = wsFixed k2, outputRows = length (filter nonEmptyRow D2)\<rparr>"
    by (rule rationalize_InrE)
  let ?C = "filter nonEmptyRow D"
  have C: "?C = map (map JString) S" using strings r by simp
  have Ncells: "N = map (map (\<lambda>c. fst (normalizeCell c ?z))) T"
    using N by (rule normalizeRows_cells)
  have N2cells: "N2 = map (map (\<lambda>c. fst (normalizeCell c ?z))) S"
    using N2 by (rule normalizeRows_cells)
  have DN: "set D \<subseteq> set N" using dedupe_subset [OF D] by simp
  have stable: "normalizeCell s j = (JString s, j)" if "row \<in> set S" "s \<in> set row" for row s j
  proof -
    have "map JString row \<in> set ?C" using that(1) C by simp
    then have "map JString row \<in> set N" using DN by auto
    then obtain trow where trow: "trow \<in> set T"
      "map JString row = map (\<lambda>c. fst (normalizeCell c ?z)) trow"
      unfolding Ncells by auto
    have "JString s \<in> set (map JString row)" using that(2) by simp
    then obtain cell where "JString s = fst (normalizeCell cell ?z)"
      unfolding trow(2) by auto
    then have origin: "normalizeCell cell ?z = (JString s, snd (normalizeCell cell ?z))"
      by (simp add: prod_eq_iff)
    have "map (\<lambda>c. fst (normalizeCell c ?z)) row \<in> set N2"
      unfolding N2cells using that(1) by simp
    then have "JObject \<notin> set (map (\<lambda>c. fst (normalizeCell c ?z)) row)"
      using dedupe_strings [OF D2] by blast
    then have "fst (normalizeCell s ?z) \<noteq> JObject" using that(2) by force
    then have "fst (normalizeCell s j) \<noteq> JObject"
      using normalizeCell_fst_indep [of s j ?z] by simp
    with origin show ?thesis by (rule normalizeCell_stable)
  qed
  have "normalizeRows S ?z = (map (map JString) S, ?z)"
    by (rule normalizeRows_stable) (rule stable)
  with N2 C have N2C: "N2 = ?C" and k2: "k2 = ?z" by simp_all
  have dist: "distinct (map rowKey D) \<and> rowKey ` set D \<subseteq> range Inr"
    using D by (rule dedupe_distinct) simp_all
  then have dC: "distinct (map rowKey ?C)" by (simp add: distinct_map_filter)
  have "dedupe ?C [] [] 0 = Inr ([] @ ?C, 0)"
  proof (rule dedupe_all_kept [OF dC])
    fix row assume "row \<in> set ?C"
    then have "rowKey row \<in> range Inr" using dist by auto
    then show "\<exists>key. rowKey row = Inr key \<and> key \<notin> set []" by auto
  qed
  with D2 N2C have "D2 = ?C" "n2 = 0" by simp_all
  then show ?thesis unfolding r' r k2 by simp
qed

lemma rationalize_strings:
  assumes "rationalize T = Inr r"
  shows "\<exists>S. rationRows r = map (map JString) S"
proof -
  let ?z = "\<lparr>abbrFixed = 0, casingFixed = 0, wsFixed = 0\<rparr>"
  from assms obtain N k D n where
    N: "normalizeRows T ?z = (N, k)" and D: "dedupe N [] [] 0 = Inr (D, n)"
    and r: "r = \<lparr>rationRows = filter nonEmptyRow D,
           duplicatesRemoved = n + (length D - length (filter nonEmptyRow D)),
           abbreviationsFixed = abbrFixed k, casingFixedStat = casingFixed k,
           whitespaceFixed = wsFixed k, outputRows = length (filter nonEmptyRow D)\<rparr>"
    by (rule rationalize_InrE)
  have DN: "set D \<subseteq> set N" using dedupe_subset [OF D] by simp
  have cellstr: "\<exists>s. v = JString s" if "row \<in> set (filter nonEmptyRow D)" "v \<in> set row" for row v
  proof -
    from that(1) DN have "row \<in> set N" by auto
    then have "JObject \<notin> set row" using dedupe_strings [OF D] by blast
    with that(2) have "v \<noteq> JObject" by blast
    then show ?thesis by (cases v) simp_all
  qed
  define str where "str v = (case v of JString s \<Rightarrow> s | JObject \<Rightarrow> [])" for v
  have "map (map JString) (map (map str) (filter nonEmptyRow D)) = filter nonEmptyRow D"
  proof -
    have rowid: "map (JString \<circ> str) row = row" if "row \<in> set (filter nonEmptyRow D)" for row
    proof (rule map_idI)
      fix v assume "v \<in> set row"
      with cellstr [OF that] obtain s where "v = JString s" by blast
      then show "(JString \<circ> str) v = v" by (simp add: str_def)
    qed
    have "map (map (JString \<circ> str)) (filter nonEmptyRow D) = filter nonEmptyRow D"
    proof (rule map_idI)
      fix row assume "row \<in> set (filter nonEmptyRow D)"
      then show "map (JString \<circ> str) row = row" by (rule rowid)
    qed
    then show ?thesis by (simp add: comp_def)
  qed
  then show ?thesis unfolding r by (intro exI [of _ "map (map str) (filter nonEmptyRow D)"]) simp
qed

section \<open>Runs that throw\<close>

text \<open>On tables of ASCII cells the pass throws exactly when a cell's trimmed, collapsed
  text is one of the names that the abbreviation dictionary inherits.\<close>

lemma inherited_not_own:
  assumes "c \<in> set Object_prototype_names"
  shows "map_of VALUE_ABBREVIATIONS c = None"
proof -
  have "list_all (\<lambda>c. map_of VALUE_ABBREVIATIONS c = None) Object_prototype_names"
    by code_simp
  then show ?thesis using assms by (simp add: list_all_iff)
qed

lemma abbreviation_lookup_object:
  "abbreviation_lookup c = Some JObject \<longleftrightarrow> c \<in> set Object_prototype_names"
  using inherited_not_own [of c]
  by (auto simp: abbreviation_lookup_def split: option.splits)

lemma fixCasing_object: "fst (fixCasing v k) = JObject \<longleftrightarrow> v = JObject"
  by (cases v) (simp_all add: fixCasing_def Let_def)

lemma fixAbbreviation_object:
  "fst (fixAbbreviation c k) = JObject \<longleftrightarrow> c \<in> set Object_prototype_names"
proof (cases "abbreviation_lookup c")
  case None
  then show ?thesis using abbreviation_lookup_object [of c] by (simp add: fixAbbreviation_def)
next
  case (Some v)
  then show ?thesis using abbreviation_lookup_object [of c] by (simp add: fixAbbreviation_def)
qed

lemma normalizeCell_object:
  "fst (normalizeCell c k) = JObject \<longleftrightarrow> collapseWhiteSpace (trim c) \<in> set Object_prototype_names"
  unfolding normalizeCell_fst [of c k k] fixCasing_object fixAbbreviation_object ..

lemma lowerCells_throws: "(\<exists>e. lowerCells vs = Inl e) \<longleftrightarrow> JObject \<in> set vs"
proof (induction vs)
  case Nil
  show ?case by simp
next
  case (Cons v vs)
  show ?case
  proof (cases v)
    case JObject
    then show ?thesis by simp
  next
    case (JString s)
    then show ?thesis using Cons.IH by (cases "lowerCells vs") auto
  qed
qed

lemma rowKey_throws: "(\<exists>e. rowKey row = Inl e) \<longleftrightarrow> JObject \<in> set row"
  using lowerCells_throws [of row] by (cases "lowerCells row") (auto simp: rowKey_def)

lemma dedupe_throws:
  "(\<exists>e. dedupe rws seen acc n = Inl e) \<longleftrightarrow> (\<exists>row \<in> set rws. JObject \<in> set row)"
proof (induction rws arbitrary: seen acc n)
  case Nil
  show ?case by simp
next
  case (Cons r rws)
  show ?case
  proof (cases "rowKey r")
    case (Inl e)
    then have "JObject \<in> set r" using rowKey_throws [of r] by auto
    then show ?thesis using Inl by auto
  next
    case (Inr key)
    then have no: "JObject \<notin> set r" using rowKey_throws [of r] by auto
    show ?thesis
    proof (cases "key \<in> set seen")
      case True
      then show ?thesis using Inr no Cons.IH [of seen acc "n + 1"] by simp
    next
      case False
      then show ?thesis using Inr no Cons.IH [of "key # seen" "acc @ [r]" n] by simp
    qed
  qed
qed

lemma rationalize_throws_iff:
  assumes ascii: "\<forall>row \<in> set T. \<forall>cell \<in> set row. isAscii cell"
  shows "rationalize T = Inl TypeError \<longleftrightarrow>
     (\<exists>row \<in> set T. \<exists>cell \<in> set row.
        collapseWhiteSpace (trim cell) \<in> set Object_prototype_names)"
proof -
  let ?z = "\<lparr>abbrFixed = 0, casingFixed = 0, wsFixed = 0\<rparr>"
  obtain N k where N: "normalizeRows T ?z = (N, k)" by (cases "normalizeRows T ?z")
  have Ncells: "N = map (map (\<lambda>c. fst (normalizeCell c ?z))) T"
    using N by (rule normalizeRows_cells)
  have "rationalize T = Inl TypeError \<longleftrightarrow> (\<exists>e. dedupe N [] [] 0 = Inl e)"
  proof (cases "dedupe N [] [] 0")
    case (Inl e)
    then show ?thesis using N by (cases e) (simp add: rationalize_def)
  next
    case (Inr x)
    then show ?thesis using N by (cases x) (simp add: rationalize_def Let_def)
  qed
  also have "\<dots> \<longleftrightarrow> (\<exists>row \<in> set N. JObject \<in> set row)" by (rule dedupe_throws)
  also have "\<dots> \<longleftrightarrow> (\<exists>row \<in> set T. \<exists>cell \<in> set row. fst (normalizeCell cell ?z) = JObject)"
  proof
    assume "\<exists>row \<in> set N. JObject \<in> set row"
    then obtain row where row: "row \<in> set N" "JObject \<in> set row" by blast
    from row(1) obtain trow where trow: "trow \<in> set T"
      "row = map (\<lambda>c. fst (normalizeCell c ?z)) trow"
      unfolding Ncells by auto
    from row(2) obtain cell where "cell \<in> set trow" "fst (normalizeCell cell ?z) = JObject"
      unfolding trow(2) by auto
    with trow(1) show "\<exists>row \<in> set T. \<exists>cell \<in> set row. fst (normalizeCell cell ?z) = JObject"
      by blast
  next
    assume "\<exists>row \<in> set T. \<exists>cell \<in> set row. fst (normalizeCell cell ?z) = JObject"
    then obtain trow cell where tc: "trow \<in> set T" "cell \<in> set trow"
      "fst (normalizeCell cell ?z) = JObject" by blast
    have "map (\<lambda>c. fst (normalizeCell c ?z)) trow \<in> set N"
      unfolding Ncells using tc(1) by simp
    moreover have "JObject \<in> set (map (\<lambda>c. fst (normalizeCell c ?z)) trow)"
      using tc(2,3) by force
    ultimately show "\<exists>row \<in> set N. JObject \<in> set row" by blast
  qed
  finally show ?thesis unfolding normalizeCell_object .
qed

section \<open>Keys of rows\<close>

text \<open>Rows that are equal up to letter case have the same key. For rows of one length
  whose cells are free of the vertical bar the converse holds, and then every row of the
  input is equal up to letter case to a row that the deduplication keeps.\<close>

lemma toLowerChar_bar [simp]: "toLowerChar c = CHR ''|'' \<longleftrightarrow> c = CHR ''|''"
proof -
  have "(of_char (toLowerChar c) :: nat) = 124 \<longleftrightarrow> (of_char c :: nat) = 124"
    unfolding of_char_toLowerChar by auto
  then show ?thesis
    unfolding char_eq_iff_nat [of "toLowerChar c"] char_eq_iff_nat [of c] by simp
qed

lemma bar_free_toLowerCase: "CHR ''|'' \<in> set (toLowerCase s) \<longleftrightarrow> CHR ''|'' \<in> set s"
proof (induction s)
  case Nil
  show ?case by (simp add: toLowerCase_def)
next
  case (Cons c s)
  have "CHR ''|'' = toLowerChar c \<longleftrightarrow> CHR ''|'' = c"
    using toLowerChar_bar [of c] by (simp add: eq_commute del: toLowerChar_bar)
  then show ?case using Cons by (simp add: toLowerCase_def)
qed

lemma append_bar_eq:
  assumes "x @ r = y @ r'" and "CHR ''|'' \<notin> set x" and "CHR ''|'' \<notin> set y"
    and "r = [] \<or> hd r = CHR ''|''" and "r' = [] \<or> hd r' = CHR ''|''"
  shows "x = y \<and> r = r'"
proof -
  have tw: "takeWhile (\<lambda>c. c \<noteq> CHR ''|'') (u @ t) = u"
    if "CHR ''|'' \<notin> set u" "t = [] \<or> hd t = CHR ''|''" for u t
  proof -
    have "takeWhile (\<lambda>c. c \<noteq> CHR ''|'') t = []" using that(2) by (cases t) auto
    moreover have "\<forall>c \<in> set u. c \<noteq> CHR ''|''" using that(1) by auto
    ultimately show ?thesis by (simp add: takeWhile_append2)
  qed
  have "x = takeWhile (\<lambda>c. c \<noteq> CHR ''|'') (x @ r)" using tw [OF assms(2,4)] by simp
  also have "\<dots> = takeWhile (\<lambda>c. c \<noteq> CHR ''|'') (y @ r')" using assms(1) by simp
  also have "\<dots> = y" using tw [OF assms(3,5)] .
  finally have "x = y" .
  then show ?thesis using assms(1) by simp
qed

lemma join_bar_inj:
  assumes "length xs = length ys"
    and "\<forall>x \<in> set xs. CHR ''|'' \<notin> set x" and "\<forall>y \<in> set ys. CHR ''|'' \<notin> set y"
    and "join ''|'' xs = join ''|'' ys"
  shows "xs = ys"
  using assms
proof (induction xs ys rule: list_induct2)
  case Nil
  show ?case by simp
next
  case (Cons x xs y ys)
  have jx: "join ''|'' (x # xs) = x @ (if xs = [] then [] else ''|'' @ join ''|'' xs)"
    by (cases xs) simp_all
  have jy: "join ''|'' (y # ys) = y @ (if ys = [] then [] else ''|'' @ join ''|'' ys)"
    by (cases ys) simp_all
  have "x = y \<and> (if xs = [] then [] else ''|'' @ join ''|'' xs)
                = (if ys = [] then [] else ''|'' @ join ''|'' ys)"
  proof (rule append_bar_eq)
    show "x @ (if xs = [] then [] else ''|'' @ join ''|'' xs)
        = y @ (if ys = [] then [] else ''|'' @ join ''|'' ys)"
      using Cons.prems(3) unfolding jx jy .
  qed (use Cons.prems in auto)
  moreover have "xs = [] \<longleftrightarrow> ys = []" using Cons.hyps by auto
  ultimately have "x = y" and "join ''|'' xs = join ''|'' ys" by (auto split: if_splits)
  then show ?case using Cons.IH Cons.prems by simp
qed

lemma lowerCells_JString: "lowerCells (map JString a) = Inr (map toLowerCase a)"
  by (induction a) simp_all

lemma rowKey_JString: "rowKey (map JString a) = Inr (join ''|'' (map toLowerCase a))"
  by (simp add: rowKey_def lowerCells_JString)

lemma same_key_if_equal_ignoring_case:
  "map toLowerCase a = map toLowerCase b \<Longrightarrow> rowKey (map JString a) = rowKey (map JString b)"
  by (simp add: rowKey_JString)

lemma same_key_only_if_equal_ignoring_case:
  assumes "rowKey (map JString a) = rowKey (map JString b)" and "length a = length b"
    and "\<forall>c \<in> set a. CHR ''|'' \<notin> set c" and "\<forall>c \<in> set b. CHR ''|'' \<notin> set c"
  shows "map toLowerCase a = map toLowerCase b"
proof (rule join_bar_inj)
  show "length (map toLowerCase a) = length (map toLowerCase b)" using assms(2) by simp
  show "\<forall>x \<in> set (map toLowerCase a). CHR ''|'' \<notin> set x"
    using assms(3) by (simp add: bar_free_toLowerCase)
  show "\<forall>y \<in> set (map toLowerCase b). CHR ''|'' \<notin> set y"
    using assms(4) by (simp add: bar_free_toLowerCase)
  show "join ''|'' (map toLowerCase a) = join ''|'' (map toLowerCase b)"
    using assms(1) by (simp add: rowKey_JString)
qed

lemma dedupe_extends:
  "dedupe rws seen acc n = Inr (d, m) \<Longrightarrow> set acc \<subseteq> set d"
proof (induction rws arbitrary: seen acc n)
  case Nil
  then show ?case by simp
next
  case (Cons r rws)
  from Cons.prems obtain key where key: "rowKey r = Inr key"
    by (cases "rowKey r") auto
  show ?case
  proof (cases "key \<in> set seen")
    case True
    then have "dedupe rws seen acc (n + 1) = Inr (d, m)" using Cons.prems key by simp
    then show ?thesis by (rule Cons.IH)
  next
    case False
    then have "dedupe rws (key # seen) (acc @ [r]) n = Inr (d, m)" using Cons.prems key by simp
    from Cons.IH [OF this] show ?thesis by simp
  qed
qed

lemma dedupe_keys_kept:
  assumes "dedupe rws seen acc n = Inr (d, m)" and "row \<in> set rws"
  shows "rowKey row \<in> rowKey ` set d \<union> Inr ` set seen"
  using assms
proof (induction rws arbitrary: seen acc n)
  case Nil
  then show ?case by simp
next
  case (Cons r rws)
  from Cons.prems(1) obtain key where key: "rowKey r = Inr key"
    by (cases "rowKey r") auto
  show ?case
  proof (cases "key \<in> set seen")
    case True
    then have run: "dedupe rws seen acc (n + 1) = Inr (d, m)" using Cons.prems(1) key by simp
    show ?thesis
    proof (cases "row = r")
      case True
      then show ?thesis using key \<open>key \<in> set seen\<close> by simp
    next
      case False
      then have "row \<in> set rws" using Cons.prems(2) by simp
      with run show ?thesis by (rule Cons.IH)
    qed
  next
    case False
    then have run: "dedupe rws (key # seen) (acc @ [r]) n = Inr (d, m)"
      using Cons.prems(1) key by simp
    have r: "r \<in> set d" using dedupe_extends [OF run] by simp
    show ?thesis
    proof (cases "row = r")
      case True
      then show ?thesis using r by simp
    next
      case False
      then have "row \<in> set rws" using Cons.prems(2) by simp
      with run have "rowKey row \<in> rowKey ` set d \<union> Inr ` set (key # seen)" by (rule Cons.IH)
      moreover have "Inr key \<in> rowKey ` set d" using r key by (metis imageI)
      ultimately show ?thesis by auto
    qed
  qed
qed

lemma dedupe_exact_without_separator:
  assumes run: "dedupe (map (map JString) R) [] [] 0 = Inr (d, m)"
    and shape: "\<forall>row \<in> set R. length row = w \<and> (\<forall>c \<in> set row. CHR ''|'' \<notin> set c)"
    and row: "row \<in> set R"
  shows "\<exists>kept \<in> set R. map JString kept \<in> set d
           \<and> map toLowerCase kept = map toLowerCase row"
proof -
  have "map JString row \<in> set (map (map JString) R)" using row by simp
  with run have "rowKey (map JString row) \<in> rowKey ` set d \<union> Inr ` set []"
    by (rule dedupe_keys_kept)
  then obtain k where k: "k \<in> set d" "rowKey k = rowKey (map JString row)" by auto
  have "set d \<subseteq> set (map (map JString) R)" using dedupe_subset [OF run] by simp
  with k(1) obtain kept where kept: "kept \<in> set R" "k = map JString kept" by auto
  have "map toLowerCase kept = map toLowerCase row"
  proof (rule same_key_only_if_equal_ignoring_case)
    show "rowKey (map JString kept) = rowKey (map JString row)" using k(2) kept(2) by simp
    show "length kept = length row" using shape kept(1) row by simp
    show "\<forall>c \<in> set kept. CHR ''|'' \<notin> set c" using shape kept(1) by simp
    show "\<forall>c \<in> set row. CHR ''|'' \<notin> set c" using shape row by simp
  qed
  with kept k(1) show ?thesis by auto
qed

section \<open>The white-space counter\<close>

text \<open>Both branches of the ingestion trim every cell, and the merge copies cells or writes
  the empty string, so the pass only ever sees trimmed cells.\<close>

lemma trim_Nil [simp]: "trim [] = []"
  by (simp add: trim_def)

lemma trim_idem [simp]: "trim (trim s) = trim s"
proof (cases "trim s = []")
  case True
  then show ?thesis by simp
next
  case False
  let ?a = "dropWhile isWhiteSpace s"
  have t: "trim s = rtrim ?a" by (rule trim_rtrim)
  with False have ne: "rtrim ?a \<noteq> []" by simp
  have "?a \<noteq> []"
  proof
    assume e: "?a = []"
    have "rtrim ?a = []" unfolding e by simp
    with ne show False by simp
  qed
  then have "\<not> isWhiteSpace (hd ?a)" by (rule hd_dropWhile)
  then have h: "\<not> isWhiteSpace (hd (trim s))" using hd_rtrim [OF ne] t by simp
  have "rev (trim s) = dropWhile isWhiteSpace (rev ?a)" by (simp add: trim_def)
  moreover from False have "dropWhile isWhiteSpace (rev ?a) \<noteq> []" by (simp add: trim_def)
  ultimately have "\<not> isWhiteSpace (hd (rev (trim s)))" using hd_dropWhile [of isWhiteSpace "rev ?a"] by simp
  then have l: "\<not> isWhiteSpace (last (trim s))" using False by (simp add: hd_rev)
  from False h l show ?thesis by (rule trim_tidy)
qed

lemma parseCSVLoop_trimmed:
  assumes "\<forall>c \<in> set result. trim c = c" and "c \<in> set (parseCSVLoop line current q result)"
  shows "trim c = c"
  using assms
proof (induction line current q result rule: parseCSVLoop.induct)
  case (1 current inQuotes result)
  then show ?case by auto
next
  case (2 ch line current inQuotes result)
  show ?case
  proof (cases "ch = CHR 0x22")
    case True
    then show ?thesis using 2 by simp
  next
    case False
    show ?thesis
    proof (cases "ch = CHR '','' \<and> \<not> inQuotes")
      case True
      have "\<forall>c \<in> set (result @ [trim current]). trim c = c" using "2.prems"(1) by auto
      then show ?thesis using "2.IH"(2) [OF False True] "2.prems"(2) False True by simp
    next
      case no: False
      then show ?thesis using "2.IH"(3) [OF False no "2.prems"(1)] "2.prems"(2) False by auto
    qed
  qed
qed

lemma parseCSVLine_trimmed: "c \<in> set (parseCSVLine line) \<Longrightarrow> trim c = c"
  unfolding parseCSVLine_def by (rule parseCSVLoop_trimmed [of "[]"]) simp_all

lemma ingestCSV_trimmed: "f \<in> set (ingestCSV n txt) \<Longrightarrow> trimmedFile f"
  by (auto simp: ingestCSV_def trimmedFile_def parseCSVLine_trimmed split: list.splits)

lemma ingestSheet_trimmed: "f \<in> set (ingestSheet n raw) \<Longrightarrow> trimmedFile f"
  by (auto simp: ingestSheet_def trimmedFile_def Let_def split: list.splits)

lemma ingestFile_trimmed:
  assumes "f \<in> set (ingestFile u)"
  shows "trimmedFile f"
proof (cases "endsWith (uploadName u) ''.csv''")
  case True
  then have "f \<in> set (ingestCSV (uploadName u) (uploadText u))"
    using assms by (simp add: ingestFile_def)
  then show ?thesis by (rule ingestCSV_trimmed)
next
  case False
  show ?thesis
  proof (cases "isSheetName (uploadName u)")
    case no: False
    then have "ingestFile u = []" using False by (simp add: ingestFile_def)
    then show ?thesis using assms by simp
  next
    case True
    show ?thesis
    proof (cases "uploadBook u")
      case Unreadable
      then have "ingestFile u = []" using False True by (simp add: ingestFile_def)
      then show ?thesis using assms by simp
    next
      case (FirstSheet raw)
      then have "ingestFile u = ingestSheet (uploadName u) raw"
        using False True by (simp add: ingestFile_def)
      then have "f \<in> set (ingestSheet (uploadName u) raw)" using assms by simp
      then show ?thesis by (rule ingestSheet_trimmed)
    qed
  qed
qed

lemma ingestFiles_trimmed:
  assumes "\<forall>f \<in> set prev. trimmedFile f" and "f \<in> set (ingestFiles list prev)"
  shows "trimmedFile f"
  using assms by (auto simp: ingestFiles_def ingestFile_trimmed)

lemma mergeCell_cells:
  assumes "c \<in> set (mergeCell hm acc ic)"
  shows "c = [] \<or> c = snd ic \<or> c \<in> set acc"
proof (cases "hm (fst ic)")
  case None
  then show ?thesis using assms by (simp add: mergeCell_def)
next
  case (Some idx)
  show ?thesis
  proof (cases "idx < length acc")
    case True
    then have "set (mergeCell hm acc ic) \<subseteq> insert (snd ic) (set acc)"
      using Some by (simp add: mergeCell_def array_assign_def set_update_subset_insert)
    then show ?thesis using assms by auto
  next
    case False
    then show ?thesis using Some assms by (auto simp: mergeCell_def array_assign_def)
  qed
qed

lemma foldl_mergeCell_cells:
  assumes "c \<in> set (foldl (mergeCell hm) acc xs)"
  shows "c = [] \<or> c \<in> snd ` set xs \<or> c \<in> set acc"
  using assms
proof (induction xs arbitrary: acc)
  case Nil
  then show ?case by simp
next
  case (Cons ic xs)
  from Cons.prems have "c \<in> set (foldl (mergeCell hm) (mergeCell hm acc ic) xs)" by simp
  then have "c = [] \<or> c \<in> snd ` set xs \<or> c \<in> set (mergeCell hm acc ic)" by (rule Cons.IH)
  then show ?case using mergeCell_cells [of c hm acc ic] by auto
qed

lemma mergeRow_cells:
  assumes "c \<in> set (mergeRow n hm row)"
  shows "c = [] \<or> c \<in> set row"
proof -
  from assms have "c = [] \<or> c \<in> snd ` set (zip [0 ..< length row] row) \<or> c \<in> set (replicate n [])"
    unfolding mergeRow_def by (rule foldl_mergeCell_cells)
  moreover have "c \<in> snd ` set (zip [0 ..< length row] row) \<Longrightarrow> c \<in> set row"
  proof -
    assume "c \<in> snd ` set (zip [0 ..< length row] row)"
    then obtain i where "(i, c) \<in> set (zip [0 ..< length row] row)" by force
    then show "c \<in> set row" by (rule set_zip_rightD)
  qed
  ultimately show ?thesis by auto
qed

lemma merged_trimmed:
  assumes "\<forall>f \<in> set fs. trimmedFile f"
    and "row \<in> set (mergedRows (mergeAndPreview fs))" and "c \<in> set row"
  shows "trim c = c"
proof -
  from assms(2) obtain f srow where f: "f \<in> set fs" "srow \<in> set (rows f)"
    and row: "row = mergeRow (length (standardCols (mapColumns (allSourceCols fs))))
                (headerMap (mapColumns (allSourceCols fs)) (headers f)) srow"
    by (auto simp: mergeAndPreview_def Let_def mergeFile_def)
  from assms(3) have "c = [] \<or> c \<in> set srow" unfolding row by (rule mergeRow_cells)
  then show ?thesis using assms(1) f by (auto simp: trimmedFile_def)
qed

lemma wsFixed_fixAbbreviation: "wsFixed (snd (fixAbbreviation c k)) = wsFixed k"
  by (cases "abbreviation_lookup c") (simp_all add: fixAbbreviation_def)

lemma wsFixed_fixCasing: "wsFixed (snd (fixCasing v k)) = wsFixed k"
  by (cases v) (simp_all add: fixCasing_def Let_def)

lemma wsFixed_normalizeCell:
  "wsFixed (snd (normalizeCell cell k)) = wsFixed k + (if trim cell \<noteq> cell then 1 else 0)"
proof -
  obtain c0 k1 where w: "fixWhiteSpace cell k = (c0, k1)" by (cases "fixWhiteSpace cell k")
  obtain v k2 where a: "fixAbbreviation c0 k1 = (v, k2)" by (cases "fixAbbreviation c0 k1")
  have "wsFixed k1 = wsFixed k + (if trim cell \<noteq> cell then 1 else 0)"
    using w by (auto simp: fixWhiteSpace_def Let_def)
  moreover have "wsFixed k2 = wsFixed k1" using a wsFixed_fixAbbreviation [of c0 k1] by simp
  moreover have "wsFixed (snd (normalizeCell cell k)) = wsFixed k2"
    by (simp add: normalizeCell_def w a wsFixed_fixCasing)
  ultimately show ?thesis by simp
qed

lemma wsFixed_normalizeRow:
  assumes "\<forall>c \<in> set row. trim c = c"
  shows "wsFixed (snd (normalizeRow row k)) = wsFixed k"
  using assms
proof (induction row arbitrary: k)
  case Nil
  then show ?case by simp
next
  case (Cons c row)
  obtain v k1 where c: "normalizeCell c k = (v, k1)" by (cases "normalizeCell c k")
  obtain vs k2 where r: "normalizeRow row k1 = (vs, k2)" by (cases "normalizeRow row k1")
  have "wsFixed k1 = wsFixed k" using c wsFixed_normalizeCell [of c k] Cons.prems by simp
  moreover have "wsFixed k2 = wsFixed k1" using r Cons.IH [of k1] Cons.prems by simp
  ultimately show ?case using c r by simp
qed

lemma wsFixed_normalizeRows:
  assumes "\<forall>row \<in> set rws. \<forall>c \<in> set row. trim c = c"
  shows "wsFixed (snd (normalizeRows rws k)) = wsFixed k"
  using assms
proof (induction rws arbitrary: k)
  case Nil
  then show ?case by simp
next
  case (Cons row rws)
  obtain v k1 where c: "normalizeRow row k = (v, k1)" by (cases "normalizeRow row k")
  obtain vs k2 where r: "normalizeRows rws k1 = (vs, k2)" by (cases "normalizeRows rws k1")
  have "wsFixed k1 = wsFixed k" using c wsFixed_normalizeRow [of row k] Cons.prems by simp
  moreover have "wsFixed k2 = wsFixed k1" using r Cons.IH [of k1] Cons.prems by simp
  ultimately show ?case using c r by simp
qed

lemma whitespaceFixed_trimmed:
  assumes "\<forall>row \<in> set T. \<forall>c \<in> set row. trim c = c" and "rationalize T = Inr r"
  shows "whitespaceFixed r = 0"
proof -
  from assms(2) obtain N k D n where
    N: "normalizeRows T \<lparr>abbrFixed = 0, casingFixed = 0, wsFixed = 0\<rparr> = (N, k)"
    and r: "r = \<lparr>rationRows = filter nonEmptyRow D,
           duplicatesRemoved = n + (length D - length (filter nonEmptyRow D)),
           abbreviationsFixed = abbrFixed k, casingFixedStat = casingFixed k,
           whitespaceFixed = wsFixed k, outputRows = length (filter nonEmptyRow D)\<rparr>"
    by (rule rationalize_InrE)
  have "wsFixed k = 0"
    using wsFixed_normalizeRows [OF assms(1), of "\<lparr>abbrFixed = 0, casingFixed = 0, wsFixed = 0\<rparr>"] N
    by simp
  then show ?thesis unfolding r by simp
qed

text \<open>
  C10, as stated: the cell of the claim, put in an uploaded file, reaches the pass trimmed.
  The run counts an abbreviation fix for it and no white-space fix.
\<close>

theorem trimmed_on_ingestion_counterexample:
  "ingestFiles [\<lparr>uploadName = ''a.csv'', uploadText = ''uom'' @ [CHR 0x0A] @ '' ea. '',
                  uploadBook = Unreadable\<rparr>] []
     = [\<lparr>fileName = ''a.csv'', headers = [''uom''], rows = [[''ea.'']]\<rparr>]
   \<and> mergedRows (mergeAndPreview [\<lparr>fileName = ''a.csv'', headers = [''uom''], rows = [[''ea.'']]\<rparr>])
     = [[''ea.'']]
   \<and> rationalize [[''ea.'']]
     = Inr \<lparr>rationRows = [[JString ''Each'']], duplicatesRemoved = 0, abbreviationsFixed = 1,
             casingFixedStat = 0, whitespaceFixed = 0, outputRows = 1\<rparr>"
  by code_simp

text \<open>
  C10, amended: the callback that normalizes a cell adds one to the white-space counter and
  one to the abbreviation counter when trimming changes the cell and its trimmed, collapsed
  text is a key of the abbreviation dictionary, so in the callback the counters are not
  exclusive. No such cell reaches it: on the table merged from any files that ingestion
  produced, a run that returns reports no white-space fix.
\<close>

theorem counters_not_exclusive:
  "(trim cell \<noteq> cell \<and> collapseWhiteSpace (trim cell) \<in> fst ` set VALUE_ABBREVIATIONS
      \<longrightarrow> wsFixed (snd (normalizeCell cell k)) = wsFixed k + 1
          \<and> abbrFixed (snd (normalizeCell cell k)) = abbrFixed k + 1)
   \<and> (set fs \<subseteq> set (ingestFiles ups []) \<and> rationalize (mergedRows (mergeAndPreview fs)) = Inr r
      \<longrightarrow> whitespaceFixed r = 0)"
proof (intro conjI impI)
  assume a: "trim cell \<noteq> cell \<and> collapseWhiteSpace (trim cell) \<in> fst ` set VALUE_ABBREVIATIONS"
  from abbreviation_own_key [of "collapseWhiteSpace (trim cell)"] a obtain v where
    v: "v \<in> {''Each'', ''Pieces'', ''Numbers''}"
    and look: "abbreviation_lookup (collapseWhiteSpace (trim cell)) = Some (JString v)"
    by blast
  have cell:
    "normalizeCell cell k = (JString v, k\<lparr>wsFixed := wsFixed k + 1, abbrFixed := abbrFixed k + 1\<rparr>)"
    using a look fixCasing_expansion [OF v]
    by (simp add: normalizeCell_def fixWhiteSpace_def fixAbbreviation_def)
  show "wsFixed (snd (normalizeCell cell k)) = wsFixed k + 1" by (simp add: cell)
  show "abbrFixed (snd (normalizeCell cell k)) = abbrFixed k + 1" by (simp add: cell)
next
  assume b: "set fs \<subseteq> set (ingestFiles ups []) \<and> rationalize (mergedRows (mergeAndPreview fs)) = Inr r"
  have "\<forall>f \<in> set fs. trimmedFile f"
  proof
    fix f assume "f \<in> set fs"
    with b have "f \<in> set (ingestFiles ups [])" by auto
    then show "trimmedFile f" using ingestFiles_trimmed [of "[]" f ups] by simp
  qed
  then have "\<forall>row \<in> set (mergedRows (mergeAndPreview fs)). \<forall>c \<in> set row. trim c = c"
    using merged_trimmed by blast
  then show "whitespaceFixed r = 0" using b by (blast intro: whitespaceFixed_trimmed)
qed

theorem counters_not_exclusive_witness:
  "trim '' ea. '' \<noteq> '' ea. ''
   \<and> collapseWhiteSpace (trim '' ea. '') \<in> fst ` set VALUE_ABBREVIATIONS
   \<and> wsFixed (snd (normalizeCell '' ea. '' \<lparr>abbrFixed = 0, casingFixed = 0, wsFixed = 0\<rparr>)) = 1
   \<and> abbrFixed (snd (normalizeCell '' ea. '' \<lparr>abbrFixed = 0, casingFixed = 0, wsFixed = 0\<rparr>)) = 1
   \<and> ingestFiles [\<lparr>uploadName = ''a.csv'', uploadText = ''uom'' @ [CHR 0x0A] @ '' ea. '',
                    uploadBook = Unreadable\<rparr>] []
       = [\<lparr>fileName = ''a.csv'', headers = [''uom''], rows = [[''ea.'']]\<rparr>]
   \<and> rationalize (mergedRows (mergeAndPreview
         [\<lparr>fileName = ''a.csv'', headers = [''uom''], rows = [[''ea.'']]\<rparr>]))
       = Inr \<lparr>rationRows = [[JString ''Each'']], duplicatesRemoved = 0, abbreviationsFixed = 1,
               casingFixedStat = 0, whitespaceFixed = 0, outputRows = 1\<rparr>"
proof -
  let ?k = "\<lparr>abbrFixed = 0, casingFixed = 0, wsFixed = 0\<rparr>"
  let ?up = "\<lparr>uploadName = ''a.csv'', uploadText = ''uom'' @ [CHR 0x0A] @ '' ea. '',
               uploadBook = Unreadable\<rparr>"
  let ?f = "\<lparr>fileName = ''a.csv'', headers = [''uom''], rows = [[''ea.'']]\<rparr>"
  let ?r = "\<lparr>rationRows = [[JString ''Each'']], duplicatesRemoved = 0, abbreviationsFixed = 1,
               casingFixedStat = 0, whitespaceFixed = 0, outputRows = 1\<rparr>"
  have t: "trim '' ea. '' = ''ea.''" by code_simp
  have h1: "trim '' ea. '' \<noteq> '' ea. ''" unfolding t by simp
  have c: "collapseWhiteSpace ''ea.'' = ''ea.''" by code_simp
  have h2: "collapseWhiteSpace (trim '' ea. '') \<in> fst ` set VALUE_ABBREVIATIONS"
    unfolding t c by (simp add: VALUE_ABBREVIATIONS_def)
  have ing: "ingestFiles [?up] [] = [?f]" by code_simp
  have run: "rationalize (mergedRows (mergeAndPreview [?f])) = Inr ?r" by code_simp
  note inst = counters_not_exclusive [of " '' ea. ''" ?k "[?f]" "[?up]" ?r]
  from inst h1 h2 have both:
    "wsFixed (snd (normalizeCell '' ea. '' ?k)) = wsFixed ?k + 1
     \<and> abbrFixed (snd (normalizeCell '' ea. '' ?k)) = abbrFixed ?k + 1"
    by blast
  have sub: "set [?f] \<subseteq> set (ingestFiles [?up] [])" unfolding ing by simp
  from inst sub run have "whitespaceFixed ?r = 0" by blast
  with both h1 h2 ing run show ?thesis by simp
qed

end
